theory Spec2Isabelle
  imports Main "HOL-Library.AList"
begin

section \<open>Strings and paths\<close>

text \<open>
  Python strings and byte strings are modelled as \<open>string\<close> (a list of 8-bit characters).
\<close>

type_synonym bytes = string

text \<open>\<open>s.split(c)\<close> for a one-character separator: never empty, \<open>''''.split('/') = ['''']\<close>.\<close>

fun str_split :: "char \<Rightarrow> string \<Rightarrow> string list" where
  "str_split c [] = [[]]"
| "str_split c (x # xs) =
     (if x = c then [] # str_split c xs
      else (case str_split c xs of [] \<Rightarrow> [[x]] | y # ys \<Rightarrow> (x # y) # ys))"

text \<open>\<open>url.split('/')[-1]\<close>: the part after the last slash.\<close>

definition last_segment :: "string \<Rightarrow> string" where
  "last_segment url = last (str_split CHR ''/'' url)"

text \<open>\<open>os.path.join(a, b)\<close> of posixpath, for two arguments.\<close>

definition path_join :: "string \<Rightarrow> string \<Rightarrow> string" where
  "path_join a b =
     (if b \<noteq> [] \<and> hd b = CHR ''/'' then b
      else if a = [] \<or> last a = CHR ''/'' then a @ b
      else a @ ''/'' @ b)"

text \<open>
  \<open>re.sub(pattern, repl, s)\<close> for a pattern and a replacement without regular-expression
  metacharacters: every non-overlapping occurrence of the pattern, found from the left, is
  replaced. (The empty pattern matches at every position.)
\<close>

function re_sub :: "string \<Rightarrow> string \<Rightarrow> string \<Rightarrow> string" where
  "re_sub pat rep s =
     (if pat = [] then rep @ concat (map (\<lambda>c. c # rep) s)
      else if s = [] then []
      else if take (length pat) s = pat then rep @ re_sub pat rep (drop (length pat) s)
      else hd s # re_sub pat rep (tl s))"
  by pat_completeness auto
termination
  by (relation "measure (\<lambda>(pat, rep, s). length s)") auto

declare re_sub.simps [simp del]

definition PATTERN_TO_FIND :: string where
  "PATTERN_TO_FIND = ''/src/branch''"

definition PATTERN_TO_SUB :: string where
  "PATTERN_TO_SUB = ''/raw/branch''"

definition CLASSES :: "string list" where
  "CLASSES = [''octicon-file-directory-fill'', ''octicon-file'']"

definition PATH_TO_RESULT :: string where
  "PATH_TO_RESULT = ''repository_sha256''"

definition SEMAPHORE_LIMIT :: nat where
  "SEMAPHORE_LIMIT = 3"

section \<open>The local file system\<close>

text \<open>
  The file system is a tree: a regular file with its content, or a directory with its
  entries in the order \<open>scandir\<close> reports them. A path string is resolved from the root of
  the tree, component by component; empty components and \<open>.\<close> are skipped. Symbolic links,
  \<open>..\<close> and permissions are not modelled.
\<close>

datatype node = RegFile bytes | Dir "(string \<times> node) list"

datatype exn =
  IndexError | AttributeError | TypeError
  | FileNotFoundError | IsADirectoryError | NotADirectoryError | FileExistsError
  | ClientError

definition components :: "string \<Rightarrow> string list" where
  "components p = filter (\<lambda>c. c \<noteq> [] \<and> c \<noteq> ''.'') (str_split CHR ''/'' p)"

fun lookup :: "node \<Rightarrow> string list \<Rightarrow> node option" where
  "lookup n [] = Some n"
| "lookup n (c # cs) =
     (case n of
        RegFile _ \<Rightarrow> None
      | Dir es \<Rightarrow> (case map_of es c of None \<Rightarrow> None | Some sub \<Rightarrow> lookup sub cs))"

text \<open>Replace or create the entry at a path whose parent directory exists.\<close>

fun put :: "node \<Rightarrow> string list \<Rightarrow> node \<Rightarrow> node option" where
  "put n [] v = Some v"
| "put n (c # cs) v =
     (case n of
        RegFile _ \<Rightarrow> None
      | Dir es \<Rightarrow>
          (if cs = [] then Some (Dir (AList.update c v es))
           else (case map_of es c of
                   None \<Rightarrow> None
                 | Some sub \<Rightarrow>
                     (case put sub cs v of
                        None \<Rightarrow> None
                      | Some sub' \<Rightarrow> Some (Dir (AList.update c sub' es))))))"

text \<open>
  \<open>open(path, 'wb')\<close> and \<open>open(path, 'w')\<close>: the file is created, or truncated when it
  exists. It raises when the path names a directory or its parent is not a directory.
\<close>

definition open_w :: "node \<Rightarrow> string \<Rightarrow> exn + node" where
  "open_w root path =
     (let cs = components path in
      if path = [] then Inl FileNotFoundError
      else if cs = [] \<or> last path = CHR ''/'' then Inl IsADirectoryError
      else (case lookup root (butlast cs) of
              None \<Rightarrow> Inl FileNotFoundError
            | Some (RegFile _) \<Rightarrow> Inl NotADirectoryError
            | Some (Dir _) \<Rightarrow>
                (case lookup root cs of
                   Some (Dir _) \<Rightarrow> Inl IsADirectoryError
                 | _ \<Rightarrow> (case put root cs (RegFile []) of
                          None \<Rightarrow> Inl FileNotFoundError
                        | Some root' \<Rightarrow> Inr root'))))"

text \<open>\<open>document.write(data)\<close> on a file opened by \<open>open_w\<close>: the data is appended.\<close>

definition append_file :: "node \<Rightarrow> string \<Rightarrow> bytes \<Rightarrow> node" where
  "append_file root path bs =
     (case lookup root (components path) of
        Some (RegFile old) \<Rightarrow>
          (case put root (components path) (RegFile (old @ bs)) of
             Some root' \<Rightarrow> root' | None \<Rightarrow> root)
      | _ \<Rightarrow> root)"

text \<open>\<open>open(path, 'rb').read()\<close>.\<close>

definition read_file :: "node \<Rightarrow> string \<Rightarrow> exn + bytes" where
  "read_file root path =
     (if path = [] then Inl FileNotFoundError
      else (case lookup root (components path) of
              None \<Rightarrow> Inl FileNotFoundError
            | Some (Dir _) \<Rightarrow> Inl IsADirectoryError
            | Some (RegFile bs) \<Rightarrow>
                (if last path = CHR ''/'' then Inl NotADirectoryError else Inr bs)))"

text \<open>
  \<open>os.makedirs(path, exist_ok=True)\<close>: every missing directory on the way is created; a
  regular file on the way raises.
\<close>

fun mkdirs :: "node \<Rightarrow> string list \<Rightarrow> exn + node" where
  "mkdirs n [] = (case n of Dir _ \<Rightarrow> Inr n | RegFile _ \<Rightarrow> Inl FileExistsError)"
| "mkdirs n (c # cs) =
     (case n of
        RegFile _ \<Rightarrow> Inl NotADirectoryError
      | Dir es \<Rightarrow>
          (case mkdirs (case map_of es c of Some sub \<Rightarrow> sub | None \<Rightarrow> Dir []) cs of
             Inl e \<Rightarrow> Inl e
           | Inr sub' \<Rightarrow> Inr (Dir (AList.update c sub' es))))"

definition makedirs :: "node \<Rightarrow> string \<Rightarrow> exn + node" where
  "makedirs root path =
     (if path = [] then Inl FileNotFoundError else mkdirs root (components path))"

section \<open>The remote side\<close>

text \<open>
  One element of \<open>soup.tbody.find_all(class_=CLASSES)\<close>: the list \<open>element.get('class')\<close>
  and \<open>element.find_next_sibling()\<close>, which is \<open>None\<close> when there is no sibling and otherwise
  carries \<open>sibling.get('href')\<close> (\<open>None\<close> when the sibling has no such attribute).
\<close>

record element =
  classes :: "string list"
  next_sibling :: "string option option"

text \<open>
  A response: its HTTP status, its body, and what BeautifulSoup finds in the body
  (\<open>None\<close> when the page has no \<open>tbody\<close>).
\<close>

record response =
  status :: nat
  content :: bytes
  listing :: "element list option"

datatype get_result = ClientConnectorError | OtherClientError | Response response

type_synonym net = "string \<Rightarrow> get_result"

section \<open>State, semaphore and outcomes\<close>

datatype event = Acquire | Release | Get string | LogError string

text \<open>
  The program runs as one chain of awaited coroutines in one task: \<open>sem\<close> is the value of
  the \<open>asyncio.Semaphore\<close> (its free slots), \<open>trace\<close> the events so far, oldest first.
\<close>

record state =
  fs :: node
  sem :: nat
  trace :: "event list"

text \<open>
  A call returns, raises, waits for ever on the semaphore (no other task exists that
  could release it), or the model runs out of fuel.
\<close>

datatype outcome = Returned state | Raised exn state | Blocked state | OutOfFuel

definition emit :: "event \<Rightarrow> state \<Rightarrow> state" where
  "emit e s = s\<lparr>trace := trace s @ [e]\<rparr>"

definition acquire :: "state \<Rightarrow> state option" where
  "acquire s = (if sem s = 0 then None else Some (emit Acquire (s\<lparr>sem := sem s - 1\<rparr>)))"

definition release :: "state \<Rightarrow> state" where
  "release s = emit Release (s\<lparr>sem := sem s + 1\<rparr>)"

text \<open>Leaving an \<open>async with semaphore\<close> block, normally or by an exception.\<close>

fun leave :: "outcome \<Rightarrow> outcome" where
  "leave (Returned s) = Returned (release s)"
| "leave (Raised e s) = Raised e (release s)"
| "leave (Blocked s) = Blocked s"
| "leave OutOfFuel = OutOfFuel"

section \<open>save_file\<close>

text \<open>
  The loop \<open>while True: data_part = await response.content.read(1024) ...\<close>: chunks of
  at most 1024 bytes are written until the body is exhausted.
\<close>

function write_chunks :: "string \<Rightarrow> bytes \<Rightarrow> node \<Rightarrow> node" where
  "write_chunks path rest root =
     (let data_part = take 1024 rest in
      if data_part = [] then root
      else write_chunks path (drop 1024 rest) (append_file root path data_part))"
  by pat_completeness auto
termination
  by (relation "measure (\<lambda>(path, rest, root). length rest)") auto

declare write_chunks.simps [simp del]

definition save_file :: "net \<Rightarrow> string \<Rightarrow> string \<Rightarrow> string \<Rightarrow> state \<Rightarrow> outcome" where
  "save_file net base_url url path s =
     (let filename = last_segment url in
      case acquire s of
        None \<Rightarrow> Blocked s
      | Some s1 \<Rightarrow>
          leave
            (let s2 = emit (Get (base_url @ url)) s1 in
             case net (base_url @ url) of
               ClientConnectorError \<Rightarrow> Returned (emit (LogError url) s2)
             | OtherClientError \<Rightarrow> Raised ClientError s2
             | Response r \<Rightarrow>
                 (case open_w (fs s2) (path @ ''/'' @ filename) of
                    Inl e \<Rightarrow> Raised e s2
                  | Inr root' \<Rightarrow>
                      Returned (s2\<lparr>fs := write_chunks (path @ ''/'' @ filename) (content r) root'\<rparr>))))"

section \<open>fetch_data\<close>

text \<open>The body of the \<open>for element in objects_in_repo\<close> loop, with the recursive call
  passed in as \<open>rec\<close>.\<close>

definition element_step ::
  "(string \<Rightarrow> string \<Rightarrow> state \<Rightarrow> outcome) \<Rightarrow> net \<Rightarrow> string \<Rightarrow> string \<Rightarrow> element \<Rightarrow> state \<Rightarrow> outcome"
where
  "element_step rec net base_url local_path el s =
     (if length (classes el) < 2 then Raised IndexError s
      else if classes el ! 1 = CLASSES ! 1 then
        (case next_sibling el of
           None \<Rightarrow> Raised AttributeError s
         | Some None \<Rightarrow> Raised TypeError s
         | Some (Some href) \<Rightarrow>
             save_file net base_url (re_sub PATTERN_TO_FIND PATTERN_TO_SUB href) local_path s)
      else
        (case next_sibling el of
           None \<Rightarrow> Raised AttributeError s
         | Some None \<Rightarrow> Raised AttributeError s
         | Some (Some url_to_directory) \<Rightarrow>
             (let new_path = path_join local_path (last_segment url_to_directory) in
              case makedirs (fs s) new_path of
                Inl e \<Rightarrow> Raised e s
              | Inr root' \<Rightarrow> rec new_path url_to_directory (s\<lparr>fs := root'\<rparr>))))"

text \<open>The \<open>for\<close> loop: each element is awaited before the next one starts; an exception
  or a blocked acquire ends the loop.\<close>

fun for_each :: "(element \<Rightarrow> state \<Rightarrow> outcome) \<Rightarrow> element list \<Rightarrow> state \<Rightarrow> outcome" where
  "for_each step [] s = Returned s"
| "for_each step (el # els) s =
     (case step el s of Returned s' \<Rightarrow> for_each step els s' | other \<Rightarrow> other)"

text \<open>
  \<open>fetch_data\<close>: the first argument is fuel for the recursion into subdirectories.
\<close>

fun fetch_data :: "nat \<Rightarrow> net \<Rightarrow> string \<Rightarrow> string \<Rightarrow> string \<Rightarrow> state \<Rightarrow> outcome" where
  "fetch_data 0 net base_url local_path url s = OutOfFuel"
| "fetch_data (Suc n) net base_url local_path url s =
     (case acquire s of
        None \<Rightarrow> Blocked s
      | Some s1 \<Rightarrow>
          leave
            (let s2 = emit (Get (base_url @ url)) s1 in
             case net (base_url @ url) of
               ClientConnectorError \<Rightarrow> Returned (emit (LogError url) s2)
             | OtherClientError \<Rightarrow> Raised ClientError s2
             | Response r \<Rightarrow>
                 (case listing r of
                    None \<Rightarrow> Raised AttributeError s2
                  | Some objects_in_repo \<Rightarrow>
                      for_each
                        (element_step (\<lambda>p u. fetch_data n net base_url p u) net base_url local_path)
                        objects_in_repo s2)))"

section \<open>SHA-256\<close>

text \<open>
  \<open>hashlib.sha256\<close> is the standard library's SHA-256. It is modelled by the algorithm of
  FIPS 180-4, on bytes given as characters.
\<close>

unbundle bit_operations_syntax

text \<open>32-bit words are natural numbers below \<open>2 ^ 32\<close>, with the wrap-around written out.\<close>

definition add32 :: "nat \<Rightarrow> nat \<Rightarrow> nat" where
  "add32 a b = (a + b) mod 4294967296"

definition rotr :: "nat \<Rightarrow> nat \<Rightarrow> nat" where
  "rotr n x = x div 2 ^ n + (x mod 2 ^ n) * 2 ^ (32 - n)"

definition shr :: "nat \<Rightarrow> nat \<Rightarrow> nat" where
  "shr n x = x div 2 ^ n"

definition not32 :: "nat \<Rightarrow> nat" where
  "not32 x = 4294967295 - x"

definition Ch :: "nat \<Rightarrow> nat \<Rightarrow> nat \<Rightarrow> nat" where
  "Ch x y z = (x AND y) XOR (not32 x AND z)"

definition Maj :: "nat \<Rightarrow> nat \<Rightarrow> nat \<Rightarrow> nat" where
  "Maj x y z = (x AND y) XOR (x AND z) XOR (y AND z)"

definition Sigma0 :: "nat \<Rightarrow> nat" where
  "Sigma0 x = rotr 2 x XOR rotr 13 x XOR rotr 22 x"

definition Sigma1 :: "nat \<Rightarrow> nat" where
  "Sigma1 x = rotr 6 x XOR rotr 11 x XOR rotr 25 x"

definition sigma0 :: "nat \<Rightarrow> nat" where
  "sigma0 x = rotr 7 x XOR rotr 18 x XOR shr 3 x"

definition sigma1 :: "nat \<Rightarrow> nat" where
  "sigma1 x = rotr 17 x XOR rotr 19 x XOR shr 10 x"

definition K256 :: "nat list" where
  "K256 = [
  1116352408, 1899447441, 3049323471, 3921009573, 961987163, 1508970993, 2453635748, 2870763221,
  3624381080, 310598401, 607225278, 1426881987, 1925078388, 2162078206, 2614888103, 3248222580,
  3835390401, 4022224774, 264347078, 604807628, 770255983, 1249150122, 1555081692, 1996064986,
  2554220882, 2821834349, 2952996808, 3210313671, 3336571891, 3584528711, 113926993, 338241895,
  666307205, 773529912, 1294757372, 1396182291, 1695183700, 1986661051, 2177026350, 2456956037,
  2730485921, 2820302411, 3259730800, 3345764771, 3516065817, 3600352804, 4094571909, 275423344,
  430227734, 506948616, 659060556, 883997877, 958139571, 1322822218, 1537002063, 1747873779,
  1955562222, 2024104815, 2227730452, 2361852424, 2428436474, 2756734187, 3204031479, 3329325298]"

type_synonym hstate = "nat \<times> nat \<times> nat \<times> nat \<times> nat \<times> nat \<times> nat \<times> nat"

definition H0 :: hstate where
  "H0 = (1779033703, 3144134277, 1013904242, 2773480762, 1359893119, 2600822924, 528734635, 1541459225)"

fun round256 :: "nat \<Rightarrow> nat \<Rightarrow> hstate \<Rightarrow> hstate" where
  "round256 k w (a, b, c, d, e, f, g, h) =
     (let t1 = add32 (add32 (add32 (add32 h (Sigma1 e)) (Ch e f g)) k) w;
          t2 = add32 (Sigma0 a) (Maj a b c)
      in (add32 t1 t2, a, b, c, add32 d t1, e, f, g))"

definition next_window :: "nat list \<Rightarrow> nat list" where
  "next_window w =
     tl w @ [add32 (add32 (add32 (sigma1 (w ! 14)) (w ! 9)) (sigma0 (w ! 1))) (w ! 0)]"

fun rounds :: "nat list \<Rightarrow> nat list \<Rightarrow> hstate \<Rightarrow> hstate" where
  "rounds [] w st = st"
| "rounds (k # ks) w st = rounds ks (next_window w) (round256 k (hd w) st)"

fun add_state :: "hstate \<Rightarrow> hstate \<Rightarrow> hstate" where
  "add_state (a, b, c, d, e, f, g, h) (a', b', c', d', e', f', g', h') =
     (add32 a a', add32 b b', add32 c c', add32 d d', add32 e e', add32 f f', add32 g g',
      add32 h h')"

fun be_words :: "nat list \<Rightarrow> nat list" where
  "be_words (b0 # b1 # b2 # b3 # bs) =
     (16777216 * b0 + 65536 * b1 + 256 * b2 + b3) # be_words bs"
| "be_words _ = []"

definition compress :: "hstate \<Rightarrow> nat list \<Rightarrow> hstate" where
  "compress hs block = add_state hs (rounds K256 (be_words block) hs)"

text \<open>Padding: a one bit, zeros up to 56 modulo 64 bytes, and the bit length in 64 bits,
  big-endian.\<close>

definition pad :: "nat list \<Rightarrow> nat list" where
  "pad m = m @ [128] @ replicate ((119 - length m mod 64) mod 64) 0
             @ map (\<lambda>i. (8 * length m) div 256 ^ i mod 256) [7, 6, 5, 4, 3, 2, 1, 0]"

text \<open>The padded message is cut into blocks of 64 bytes.\<close>

function blocks :: "nat list \<Rightarrow> nat list list" where
  "blocks bs = (if bs = [] then [] else take 64 bs # blocks (drop 64 bs))"
  by pat_completeness auto
termination
  by (relation "measure length") auto

declare blocks.simps [simp del]

definition sha256 :: "string \<Rightarrow> hstate" where
  "sha256 m = foldl compress H0 (blocks (pad (map of_char m)))"

text \<open>\<open>hexdigest()\<close>: eight hexadecimal digits, lowercase, for each of the eight words.\<close>

definition hex_digit :: "nat \<Rightarrow> char" where
  "hex_digit n = ''0123456789abcdef'' ! (n mod 16)"

definition hex_u32 :: "nat \<Rightarrow> string" where
  "hex_u32 w = map (\<lambda>i. hex_digit (w div 16 ^ i)) [7, 6, 5, 4, 3, 2, 1, 0]"

fun hexdigest :: "hstate \<Rightarrow> string" where
  "hexdigest (a, b, c, d, e, f, g, h) = concat (map hex_u32 [a, b, c, d, e, f, g, h])"

section \<open>The manifest\<close>

definition calculate_sha256 :: "node \<Rightarrow> string \<Rightarrow> exn + string" where
  "calculate_sha256 root file_path =
     (case read_file root file_path of
        Inl e \<Rightarrow> Inl e
      | Inr data_to_hash \<Rightarrow> Inr (hexdigest (sha256 data_to_hash)))"

text \<open>
  \<open>os.walk(top)\<close>, top down: for a directory, its path with the names of its
  subdirectories and of its other entries, then the walks of its subdirectories in
  \<open>scandir\<close> order, each under \<open>os.path.join(top, name)\<close>. A path that is not a directory
  yields nothing (\<open>os.walk\<close> ignores the error of \<open>scandir\<close>).
\<close>

fun walk :: "string \<Rightarrow> node \<Rightarrow> (string \<times> string list \<times> string list) list"
  and walk_entries :: "string \<Rightarrow> (string \<times> node) list \<Rightarrow> (string \<times> string list \<times> string list) list"
where
  "walk top_dir (RegFile _) = []"
| "walk top_dir (Dir es) =
     (top_dir, map fst (filter (\<lambda>(n, sub). case sub of Dir _ \<Rightarrow> True | RegFile _ \<Rightarrow> False) es),
           map fst (filter (\<lambda>(n, sub). case sub of Dir _ \<Rightarrow> False | RegFile _ \<Rightarrow> True) es))
     # walk_entries top_dir es"
| "walk_entries top_dir [] = []"
| "walk_entries top_dir ((n, sub) # es) =
     (case sub of Dir _ \<Rightarrow> walk (path_join top_dir n) sub | RegFile _ \<Rightarrow> []) @ walk_entries top_dir es"

definition os_walk :: "node \<Rightarrow> string \<Rightarrow> (string \<times> string list \<times> string list) list" where
  "os_walk root directory =
     (if directory = [] then []
      else (case lookup root (components directory) of
              None \<Rightarrow> []
            | Some n \<Rightarrow> walk directory n))"

text \<open>
  One line of \<open>csv.writer\<close> in the default dialect: a field that contains a comma, a double
  quote, a carriage return or a line feed is quoted, with its quotes doubled; fields are
  joined by commas and the line ends in \<open>\r\n\<close>.
\<close>

definition csv_field :: "string \<Rightarrow> string" where
  "csv_field f =
     (if CHR '','' \<in> set f \<or> CHR 0x22 \<in> set f \<or> CHR 0x0D \<in> set f \<or> CHR 0x0A \<in> set f
      then [CHR 0x22] @ concat (map (\<lambda>c. if c = CHR 0x22 then [c, c] else [c]) f) @ [CHR 0x22]
      else f)"

fun csv_join :: "string list \<Rightarrow> string" where
  "csv_join [] = []"
| "csv_join [f] = f"
| "csv_join (f # rest) = f @ '','' @ csv_join rest"

definition csv_row :: "string list \<Rightarrow> string" where
  "csv_row row = csv_join (map csv_field row) @ [CHR 0x0D, CHR 0x0A]"

text \<open>The two nested \<open>for\<close> loops: the paths \<open>os.path.join(root, file_name)\<close> in order.\<close>

definition walked_paths :: "(string \<times> string list \<times> string list) list \<Rightarrow> string list" where
  "walked_paths triples = concat (map (\<lambda>(root, dirs, files). map (path_join root) files) triples)"

text \<open>The rows of the loop body; the first file that cannot be read ends the loop.\<close>

fun hash_rows :: "node \<Rightarrow> string list \<Rightarrow> exn + (string \<times> string) list" where
  "hash_rows root [] = Inr []"
| "hash_rows root (file_path # file_paths) =
     (case calculate_sha256 root file_path of
        Inl e \<Rightarrow> Inl e
      | Inr sha256_hash \<Rightarrow>
          (case hash_rows root file_paths of
             Inl e \<Rightarrow> Inl e
           | Inr rows \<Rightarrow> Inr ((file_path, sha256_hash) # rows)))"

definition manifest_text :: "(string \<times> string) list \<Rightarrow> string" where
  "manifest_text rows =
     csv_row [''file_path'', ''sha256_hash''] @ concat (map (\<lambda>(p, h). csv_row [p, h]) rows)"

text \<open>
  \<open>calculate_sha256_for_directory\<close>. The result file is opened, and so created or
  truncated, before the walk; the rows are buffered by the writer and reach the file when
  the \<open>with\<close> block closes it.
\<close>

definition calculate_sha256_for_directory :: "string \<Rightarrow> string \<Rightarrow> node \<Rightarrow> exn + node" where
  "calculate_sha256_for_directory directory path_to_result root =
     (case open_w root path_to_result of
        Inl e \<Rightarrow> Inl e
      | Inr root1 \<Rightarrow>
          (case hash_rows root1 (walked_paths (os_walk root1 directory)) of
             Inl e \<Rightarrow> Inl e
           | Inr rows \<Rightarrow> Inr (append_file root1 path_to_result (manifest_text rows))))"

section \<open>main\<close>

definition main :: "nat \<Rightarrow> net \<Rightarrow> string \<Rightarrow> string \<Rightarrow> string \<Rightarrow> node \<Rightarrow> outcome" where
  "main n net base_url project_url path_prefix root =
     (let path_to_project = path_join path_prefix (last_segment project_url);
          s0 = \<lparr>fs = root, sem = SEMAPHORE_LIMIT, trace = []\<rparr>
      in case makedirs root path_to_project of
           Inl e \<Rightarrow> Raised e s0
         | Inr root' \<Rightarrow>
             (case fetch_data n net base_url path_to_project project_url (s0\<lparr>fs := root'\<rparr>) of
                Returned s \<Rightarrow>
                  (case calculate_sha256_for_directory path_to_project
                          (path_join path_prefix PATH_TO_RESULT) (fs s) of
                     Inl e \<Rightarrow> Raised e s
                   | Inr root'' \<Rightarrow> Returned (s\<lparr>fs := root''\<rparr>))
              | other \<Rightarrow> other))"

section \<open>Well-formed trees and the files below a directory\<close>

text \<open>
  A well-formed tree: the names in a directory are distinct, and each is a file name (not
  empty, not \<open>.\<close>, without a slash).
\<close>

definition valid_name :: "string \<Rightarrow> bool" where
  "valid_name n \<longleftrightarrow> n \<noteq> [] \<and> n \<noteq> ''.'' \<and> CHR ''/'' \<notin> set n"

fun wf_node :: "node \<Rightarrow> bool" and wf_entries :: "(string \<times> node) list \<Rightarrow> bool" where
  "wf_node (RegFile _) = True"
| "wf_node (Dir es) = (distinct (map fst es) \<and> wf_entries es)"
| "wf_entries [] = True"
| "wf_entries ((n, sub) # es) = (valid_name n \<and> wf_node sub \<and> wf_entries es)"

text \<open>
  The regular files below a node, as component paths relative to it, in the order in
  which the walk reports them.
\<close>

fun file_comps :: "node \<Rightarrow> string list list" and sub_comps :: "(string \<times> node) list \<Rightarrow> string list list" where
  "file_comps (RegFile _) = []"
| "file_comps (Dir es) =
     map (\<lambda>n. [n]) (map fst (filter (\<lambda>(n, sub). case sub of Dir _ \<Rightarrow> False | RegFile _ \<Rightarrow> True) es))
     @ sub_comps es"
| "sub_comps [] = []"
| "sub_comps ((n, sub) # es) =
     (case sub of Dir _ \<Rightarrow> map ((#) n) (file_comps sub) | RegFile _ \<Rightarrow> []) @ sub_comps es"

definition walked_comps :: "node \<Rightarrow> string \<Rightarrow> string list list" where
  "walked_comps root directory =
     (if directory = [] then []
      else (case lookup root (components directory) of None \<Rightarrow> [] | Some sub \<Rightarrow> file_comps sub))"

text \<open>A sample tree.\<close>

definition sample_tree :: node where
  "sample_tree = Dir [(''d'', Dir [(''a.txt'', RegFile ''abc''), (''sub'', Dir [(''b.txt'', RegFile ''abc'')])])]"

text \<open>What an observer of the tree sees at a path: a regular file's content, or a directory.\<close>

definition file_at :: "node \<Rightarrow> string list \<Rightarrow> bytes option" where
  "file_at root cs = (case lookup root cs of Some (RegFile b) \<Rightarrow> Some b | _ \<Rightarrow> None)"

definition dir_at :: "node \<Rightarrow> string list \<Rightarrow> bool" where
  "dir_at root cs = (case lookup root cs of Some (Dir _) \<Rightarrow> True | _ \<Rightarrow> False)"

section \<open>Traces\<close>

text \<open>The number of semaphore slots held at the end of a trace.\<close>

fun held :: "event list \<Rightarrow> int" where
  "held [] = 0"
| "held (e # tr) = (case e of Acquire \<Rightarrow> 1 | Release \<Rightarrow> - 1 | _ \<Rightarrow> 0) + held tr"

definition within_budget :: "nat \<Rightarrow> event list \<Rightarrow> bool" where
  "within_budget L tr = (\<forall>k \<in> {..length tr}. held (take k tr) \<le> int L)"

fun outcome_trace :: "outcome \<Rightarrow> event list" where
  "outcome_trace (Returned s) = trace s"
| "outcome_trace (Raised e s) = trace s"
| "outcome_trace (Blocked s) = trace s"
| "outcome_trace OutOfFuel = []"

text \<open>The semaphore's value and the trace agree, and no prefix of the trace holds more
  than \<open>L\<close> slots.\<close>

definition inv :: "nat \<Rightarrow> state \<Rightarrow> bool" where
  "inv L s \<longleftrightarrow> int (sem s) + held (trace s) = int L \<and> within_budget L (trace s)"

fun inv_out :: "nat \<Rightarrow> outcome \<Rightarrow> bool" where
  "inv_out L (Returned s) = inv L s"
| "inv_out L (Raised e s) = inv L s"
| "inv_out L (Blocked s) = inv L s"
| "inv_out L OutOfFuel = True"

text \<open>A call with enough fuel: it does not run out, and it returns with the semaphore at \<open>k\<close>.\<close>

definition good :: "nat \<Rightarrow> outcome \<Rightarrow> bool" where
  "good k out \<longleftrightarrow> out \<noteq> OutOfFuel \<and> (\<forall>s'. out = Returned s' \<longrightarrow> sem s' = k)"

text \<open>
  The slots held at the end of a trace, innermost first, each with the number of requests
  issued under it. A request or a release with no slot held has no replay.
\<close>

fun replay :: "nat list \<Rightarrow> event list \<Rightarrow> nat list option" where
  "replay st [] = Some st"
| "replay st (Acquire # tr) = replay (0 # st) tr"
| "replay st (Release # tr) = (case st of [] \<Rightarrow> None | c # st' \<Rightarrow> replay st' tr)"
| "replay st (Get u # tr) = (case st of [] \<Rightarrow> None | c # st' \<Rightarrow> replay (Suc c # st') tr)"
| "replay st (LogError u # tr) = replay st tr"

text \<open>
  The network operations in flight at the end of a trace: a request counts from its GET
  until the slot under which it was issued is released. (In the source the response is
  read to its end inside the \<open>async with\<close> block, so no operation outlives its slot.)
\<close>

definition active_operations :: "event list \<Rightarrow> nat" where
  "active_operations tr = (case replay [] tr of None \<Rightarrow> 0 | Some st \<Rightarrow> sum_list st)"

text \<open>
  At every instant of a trace: every request so far was issued under a held slot, no slot
  carries more than one request, and at most \<open>L\<close> slots are held.
\<close>

definition operations_gated :: "nat \<Rightarrow> event list \<Rightarrow> bool" where
  "operations_gated L tr =
     (\<forall>k \<in> {..length tr}.
        case replay [] (take k tr) of
          None \<Rightarrow> False
        | Some st \<Rightarrow> list_all (\<lambda>c. c \<le> 1) st \<and> length st \<le> L)"

text \<open>The state agrees with the replay of its trace, which is gated.\<close>

definition gated :: "nat \<Rightarrow> nat list \<Rightarrow> state \<Rightarrow> bool" where
  "gated L st s \<longleftrightarrow>
     replay [] (trace s) = Some st \<and> length st + sem s = L \<and> operations_gated L (trace s)"

fun gated_out :: "nat \<Rightarrow> nat list \<Rightarrow> outcome \<Rightarrow> bool" where
  "gated_out L st (Returned s) = gated L st s"
| "gated_out L st (Raised e s) = gated L st s"
| "gated_out L st (Blocked s) = (\<exists>st'. gated L st' s)"
| "gated_out L st OutOfFuel = True"

text \<open>
  The request for \<open>u2\<close> is issued after the request for \<open>u1\<close> and before any slot has been
  released in between: the operation that requested \<open>u1\<close> is still in flight.
\<close>

definition overlap :: "event list \<Rightarrow> string \<Rightarrow> string \<Rightarrow> bool" where
  "overlap tr u1 u2 =
     (let after = dropWhile (\<lambda>e. e \<noteq> Get u1) tr
      in Get u2 \<in> set after \<and> Release \<notin> set (takeWhile (\<lambda>e. e \<noteq> Get u2) after))"

text \<open>Sample remote sites and the state in which \<open>main\<close> starts \<open>fetch_data\<close>.\<close>

definition dir_entry :: "string \<Rightarrow> element" where
  "dir_entry href = \<lparr>classes = [''svg'', ''octicon-file-directory-fill''], next_sibling = Some (Some href)\<rparr>"

definition file_entry :: "string \<Rightarrow> element" where
  "file_entry href = \<lparr>classes = [''svg'', ''octicon-file''], next_sibling = Some (Some href)\<rparr>"

definition page :: "element list \<Rightarrow> get_result" where
  "page els = Response \<lparr>status = 200, content = [], listing = Some els\<rparr>"

definition deep_site :: net where
  "deep_site u =
     (if u = ''http://h/r'' then page [dir_entry ''/r/a'']
      else if u = ''http://h/r/a'' then page [dir_entry ''/r/a/b'']
      else if u = ''http://h/r/a/b'' then page [file_entry ''/r/src/branch/m/a/b/f'']
      else Response \<lparr>status = 200, content = ''data'', listing = None\<rparr>)"

definition flat_site :: net where
  "flat_site u =
     (if u = ''http://h/r'' then page [file_entry ''/r/src/branch/m/a'', file_entry ''/r/src/branch/m/b'']
      else Response \<lparr>status = 200, content = ''data'', listing = None\<rparr>)"

definition start :: state where
  "start = \<lparr>fs = Dir [(''d'', Dir [])], sem = SEMAPHORE_LIMIT, trace = []\<rparr>"

section \<open>Properties of the file system\<close>

lemma lookup_put_same: "put n cs v = Some n' \<Longrightarrow> lookup n' cs = Some v"
  by (induction cs arbitrary: n n')
     (auto simp: update_conv' split: node.splits option.splits if_splits)

lemma put_put: "put n cs v = Some n' \<Longrightarrow> put n' cs w = put n cs w"
  by (induction cs arbitrary: n n')
     (auto simp: update_conv' split: node.splits option.splits if_splits)

lemma lookup_RegFile: "lookup (RegFile b) q = (if q = [] then Some (RegFile b) else None)"
  by (cases q) auto

lemma put_file_frame:
  "put n cs (RegFile b) = Some n' \<Longrightarrow> \<not> dir_at n cs \<Longrightarrow>
   file_at n' q = (if q = cs then Some b else file_at n q) \<and> dir_at n' q = dir_at n q"
proof (induction cs arbitrary: n n' q)
  case Nil
  then show ?case
    by (cases n; cases q) (auto simp: file_at_def dir_at_def)
next
  case (Cons c cs)
  then obtain es where n: "n = Dir es" by (cases n) auto
  show ?case
  proof (cases q)
    case Nil
    with Cons.prems n show ?thesis
      by (auto simp: file_at_def dir_at_def split: option.splits if_splits)
  next
    case (Cons d ds)
    show ?thesis
    proof (cases "d = c")
      case False
      with Cons Cons.prems n show ?thesis
        by (auto simp: file_at_def dir_at_def update_conv' split: option.splits if_splits)
    next
      case True
      show ?thesis
      proof (cases "cs = []")
        case True
        with \<open>d = c\<close> Cons Cons.prems n show ?thesis
          by (auto simp: file_at_def dir_at_def update_conv' lookup_RegFile
              split: option.splits if_splits node.splits)
      next
        case False
        with Cons.prems n obtain sub sub' where
          sub: "map_of es c = Some sub" "put sub cs (RegFile b) = Some sub'"
          "n' = Dir (AList.update c sub' es)"
          by (auto split: option.splits)
        from Cons.prems n sub have nd: "\<not> dir_at sub cs"
          by (simp add: dir_at_def)
        from Cons.IH [OF sub(2) nd, of ds] \<open>d = c\<close> Cons n sub show ?thesis
          by (simp add: file_at_def dir_at_def update_conv')
      qed
    qed
  qed
qed


lemma put_defined: "put n cs v = Some n' \<Longrightarrow> \<exists>n''. put n cs w = Some n''"
  by (induction cs arbitrary: n n')
     (auto split: node.splits option.splits if_splits)

lemma write_chunks_eq:
  "put root (components path) (RegFile old) = Some r1 \<Longrightarrow>
   put root (components path) (RegFile (old @ rest)) = Some (write_chunks path rest r1)"
proof (induction path rest r1 arbitrary: old rule: write_chunks.induct)
  case (1 path rest r1)
  show ?case
  proof (cases "take 1024 rest = []")
    case True
    then have "rest = []" by (cases rest) auto
    with 1(2) show ?thesis by (simp add: write_chunks.simps [of path "[]"])
  next
    case False
    let ?d = "take 1024 rest"
    from 1(2) have l: "lookup r1 (components path) = Some (RegFile old)"
      by (rule lookup_put_same)
    from 1(2) have pp: "put r1 (components path) (RegFile (old @ ?d)) = put root (components path) (RegFile (old @ ?d))"
      by (rule put_put)
    from 1(2) obtain r2 where r2: "put root (components path) (RegFile (old @ ?d)) = Some r2"
      using put_defined by blast
    with l pp have a: "append_file r1 path ?d = r2"
      by (simp add: append_file_def)
    from r2 a have "put root (components path) (RegFile (old @ ?d)) = Some (append_file r1 path ?d)"
      by simp
    from 1(1) [OF refl False this]
    have "put root (components path) (RegFile ((old @ ?d) @ drop 1024 rest)) =
      Some (write_chunks path (drop 1024 rest) (append_file r1 path ?d))" .
    with False show ?thesis
      by (simp add: write_chunks.simps [of path rest])
  qed
qed

lemma open_w_put:
  "open_w root path = Inr root' \<Longrightarrow>
   put root (components path) (RegFile []) = Some root' \<and> \<not> dir_at root (components path)"
  by (auto simp: open_w_def Let_def dir_at_def split: if_splits option.splits node.splits)

lemma save_file_response:
  assumes "net (base_url @ url) = Response r" and "save_file net base_url url path s = Returned s'"
  shows "put (fs s) (components (path @ ''/'' @ last_segment url)) (RegFile (content r)) = Some (fs s')
    \<and> \<not> dir_at (fs s) (components (path @ ''/'' @ last_segment url))
    \<and> sem s' = sem s"
proof -
  let ?dest = "path @ ''/'' @ last_segment url"
  from assms obtain s1 root' where s1: "acquire s = Some s1"
    and o: "open_w (fs s1) ?dest = Inr root'"
    and s': "s' = release (emit (Get (base_url @ url)) s1\<lparr>fs := write_chunks ?dest (content r) root'\<rparr>)"
    by (auto simp: save_file_def Let_def emit_def split: option.splits sum.splits)
  from s1 have f: "fs s1 = fs s" and "sem s1 = sem s - 1" "sem s > 0"
    by (auto simp: acquire_def emit_def split: if_splits)
  with s' have "sem s' = sem s" "fs s' = write_chunks ?dest (content r) root'"
    by (simp_all add: release_def emit_def)
  moreover from o f have p: "put (fs s) (components ?dest) (RegFile []) = Some root'"
    and "\<not> dir_at (fs s) (components ?dest)"
    using open_w_put by auto
  moreover from write_chunks_eq [OF p, of "content r"]
  have "put (fs s) (components ?dest) (RegFile (content r)) = Some (write_chunks ?dest (content r) root')"
    by simp
  ultimately show ?thesis by simp
qed

lemma save_file_returns:
  assumes "net (base_url @ url) = Response r" and "0 < sem s"
    and "open_w (fs s) (path @ ''/'' @ last_segment url) = Inr root'"
  shows "\<exists>s'. save_file net base_url url path s = Returned s'"
  using assms
  by (simp add: save_file_def Let_def acquire_def emit_def)

section \<open>Downloads\<close>

text \<open>
  C3. When the GET of \<open>save_file\<close> raises a connection error, the call returns and the file
  system is as it was. When the GET yields a response and the call returns, the destination
  path holds a regular file with the response body, and every other path holds what it
  held before: no other file or directory appears, disappears or changes.
\<close>

theorem save_file_side_effects:
  "0 < sem s \<Longrightarrow>
   (net (base_url @ url) = ClientConnectorError \<longrightarrow>
      (\<exists>s'. save_file net base_url url path s = Returned s' \<and> fs s' = fs s)) \<and>
   (\<forall>r s'. net (base_url @ url) = Response r \<and> save_file net base_url url path s = Returned s' \<longrightarrow>
      (\<forall>q. file_at (fs s') q =
             (if q = components (path @ ''/'' @ last_segment url) then Some (content r)
              else file_at (fs s) q)
           \<and> dir_at (fs s') q = dir_at (fs s) q))"
proof (intro conjI impI allI)
  assume "0 < sem s" "net (base_url @ url) = ClientConnectorError"
  then show "\<exists>s'. save_file net base_url url path s = Returned s' \<and> fs s' = fs s"
    by (simp add: save_file_def Let_def acquire_def emit_def release_def)
next
  fix r s' q
  assume "net (base_url @ url) = Response r \<and> save_file net base_url url path s = Returned s'"
  then have "put (fs s) (components (path @ ''/'' @ last_segment url)) (RegFile (content r)) = Some (fs s')"
    and "\<not> dir_at (fs s) (components (path @ ''/'' @ last_segment url))"
    using save_file_response by blast+
  then show "file_at (fs s') q =
             (if q = components (path @ ''/'' @ last_segment url) then Some (content r)
              else file_at (fs s) q)" and "dir_at (fs s') q = dir_at (fs s) q"
    using put_file_frame by blast+
qed

theorem save_file_side_effects_witness:
  "(\<exists>s'. save_file (\<lambda>u. ClientConnectorError) ''http://h'' ''/a/f.txt'' ''d''
          \<lparr>fs = Dir [(''d'', Dir [])], sem = 3, trace = []\<rparr> = Returned s'
        \<and> fs s' = Dir [(''d'', Dir [])]) \<and>
   (\<exists>s'. save_file (\<lambda>u. Response \<lparr>status = 200, content = ''hi'', listing = None\<rparr>)
          ''http://h'' ''/a/f.txt'' ''d''
          \<lparr>fs = Dir [(''d'', Dir [])], sem = 3, trace = []\<rparr> = Returned s'
        \<and> file_at (fs s') [''d'', ''f.txt''] = Some ''hi''
        \<and> file_at (fs s') [''d'', ''g.txt''] = None
        \<and> dir_at (fs s') [''d''])"
proof -
  let ?s = "\<lparr>fs = Dir [(''d'', Dir [])], sem = 3, trace = []\<rparr>"
  let ?net = "\<lambda>u::string. Response \<lparr>status = 200, content = ''hi'', listing = None\<rparr>"
  have c: "components (''d'' @ ''/'' @ last_segment ''/a/f.txt'') = [''d'', ''f.txt'']"
    by (simp add: components_def last_segment_def)
  have "\<exists>s'. save_file ?net ''http://h'' ''/a/f.txt'' ''d'' ?s = Returned s'"
    by (simp add: save_file_def Let_def acquire_def emit_def open_w_def components_def last_segment_def)
  then obtain s' where r: "save_file ?net ''http://h'' ''/a/f.txt'' ''d'' ?s = Returned s'" ..
  have "0 < sem ?s" by simp
  from save_file_side_effects [OF this, of "\<lambda>u. ClientConnectorError" "''http://h''" "''/a/f.txt''" "''d''"]
  have 1: "\<exists>s'. save_file (\<lambda>u. ClientConnectorError) ''http://h'' ''/a/f.txt'' ''d'' ?s = Returned s'
          \<and> fs s' = Dir [(''d'', Dir [])]"
    by simp
  from save_file_side_effects [OF \<open>0 < sem ?s\<close>, of ?net "''http://h''" "''/a/f.txt''" "''d''"] r
  have f: "\<And>q. file_at (fs s') q = (if q = [''d'', ''f.txt''] then Some ''hi'' else file_at (fs ?s) q)
           \<and> dir_at (fs s') q = dir_at (fs ?s) q"
    unfolding c by simp
  have "file_at (fs s') [''d'', ''f.txt''] = Some ''hi''"
    using f [of "[''d'', ''f.txt'']"] by simp
  moreover have "file_at (fs s') [''d'', ''g.txt''] = None"
    using f [of "[''d'', ''g.txt'']"] by (simp add: file_at_def)
  moreover have "dir_at (fs s') [''d'']"
    using f [of "[''d'']"] by (simp add: dir_at_def)
  ultimately show ?thesis using r 1 by blast
qed

text \<open>
  C9. Whenever the GET yields a response, whatever its HTTP status, and the destination can
  be opened, \<open>save_file\<close> returns and the destination holds the response body: the status is
  never looked at.
\<close>

theorem save_file_any_status:
  "0 < sem s \<Longrightarrow> net (base_url @ url) = Response r \<Longrightarrow>
   open_w (fs s) (path @ ''/'' @ last_segment url) = Inr root' \<Longrightarrow>
   \<exists>s'. save_file net base_url url path s = Returned s' \<and>
        file_at (fs s') (components (path @ ''/'' @ last_segment url)) = Some (content r)"
proof -
  assume a: "0 < sem s" "net (base_url @ url) = Response r"
    "open_w (fs s) (path @ ''/'' @ last_segment url) = Inr root'"
  then obtain s' where s': "save_file net base_url url path s = Returned s'"
    using save_file_returns by blast
  with a(2) have "put (fs s) (components (path @ ''/'' @ last_segment url)) (RegFile (content r)) = Some (fs s')"
    using save_file_response by blast
  then have "file_at (fs s') (components (path @ ''/'' @ last_segment url)) = Some (content r)"
    by (simp add: file_at_def lookup_put_same)
  with s' show ?thesis by blast
qed

theorem save_file_any_status_witness:
  "\<exists>s'. save_file (\<lambda>u. Response \<lparr>status = 404, content = ''Not found'', listing = None\<rparr>)
          ''http://h'' ''/a/f.txt'' ''d''
          \<lparr>fs = Dir [(''d'', Dir [])], sem = 3, trace = []\<rparr> = Returned s'
        \<and> file_at (fs s') [''d'', ''f.txt''] = Some ''Not found''"
proof -
  let ?s = "\<lparr>fs = Dir [(''d'', Dir [])], sem = 3, trace = []\<rparr>"
  let ?net = "\<lambda>u::string. Response \<lparr>status = 404, content = ''Not found'', listing = None\<rparr>"
  have c: "components (''d'' @ ''/'' @ last_segment ''/a/f.txt'') = [''d'', ''f.txt'']"
    by (simp add: components_def last_segment_def)
  have o: "open_w (fs ?s) (''d'' @ ''/'' @ last_segment ''/a/f.txt'') = Inr (Dir [(''d'', Dir [(''f.txt'', RegFile [])])])"
    by (simp add: open_w_def components_def last_segment_def)
  have "0 < sem ?s" and "?net (''http://h'' @ ''/a/f.txt'') = Response \<lparr>status = 404, content = ''Not found'', listing = None\<rparr>"
    by simp_all
  from save_file_any_status [OF this o] show ?thesis
    unfolding c by simp
qed

section \<open>Listing entries\<close>

lemma re_sub_no_match:
  "pat \<noteq> [] \<Longrightarrow> \<forall>a b. s \<noteq> a @ pat @ b \<Longrightarrow> re_sub pat rep s = s"
proof (induction pat rep s rule: re_sub.induct)
  case (1 pat rep s)
  show ?case
  proof (cases "s = []")
    case True
    with 1(3) show ?thesis by (simp add: re_sub.simps [of pat rep "[]"])
  next
    case False
    have nt: "take (length pat) s \<noteq> pat"
    proof
      assume "take (length pat) s = pat"
      then have "s = [] @ pat @ drop (length pat) s"
        by (metis append_Nil append_take_drop_id)
      with 1(4) show False by blast
    qed
    have "\<forall>a b. tl s \<noteq> a @ pat @ b"
    proof (intro allI notI)
      fix a b assume "tl s = a @ pat @ b"
      with False have "s = (hd s # a) @ pat @ b" by (cases s) auto
      with 1(4) show False by blast
    qed
    with 1(2) [OF 1(3) False nt 1(3)] have "re_sub pat rep (tl s) = tl s" by simp
    with False nt 1(3) show ?thesis
      by (simp add: re_sub.simps [of pat rep s])
  qed
qed

lemma re_sub_first:
  "pat \<noteq> [] \<Longrightarrow> \<forall>a' b'. a @ pat @ b = a' @ pat @ b' \<longrightarrow> length a \<le> length a' \<Longrightarrow>
   re_sub pat rep (a @ pat @ b) = a @ rep @ re_sub pat rep b"
proof (induction a)
  case Nil
  then show ?case by (simp add: re_sub.simps [of pat rep "pat @ b"])
next
  case (Cons x a)
  let ?s = "(x # a) @ pat @ b"
  have nt: "take (length pat) ?s \<noteq> pat"
  proof
    assume "take (length pat) ?s = pat"
    then have "?s = [] @ pat @ drop (length pat) ?s"
      by (metis append_Nil append_take_drop_id)
    with Cons.prems(2) have "length (x # a) \<le> length ([]::string)" by blast
    then show False by simp
  qed
  have "\<forall>a' b'. a @ pat @ b = a' @ pat @ b' \<longrightarrow> length a \<le> length a'"
  proof (intro allI impI)
    fix a' b' assume "a @ pat @ b = a' @ pat @ b'"
    then have "(x # a) @ pat @ b = (x # a') @ pat @ b'" by simp
    with Cons.prems(2) have "length (x # a) \<le> length (x # a')" by blast
    then show "length a \<le> length a'" by simp
  qed
  with Cons.IH Cons.prems(1) have "re_sub pat rep (a @ pat @ b) = a @ rep @ re_sub pat rep b"
    by simp
  with nt Cons.prems(1) show ?case
    by (simp add: re_sub.simps [of pat rep "x # a @ pat @ b"])
qed

text \<open>
  C7. For a file entry (second class \<open>octicon-file\<close>) \<open>fetch_data\<close> calls \<open>save_file\<close> with the
  entry's reference rewritten by \<open>re.sub\<close>: a reference without \<open>/src/branch\<close> is passed
  unchanged, and otherwise the leftmost occurrence is replaced by \<open>/raw/branch\<close> and the
  text after it is rewritten in the same way.
\<close>

theorem file_reference_rewritten:
  "2 \<le> length (classes el) \<Longrightarrow> classes el ! 1 = ''octicon-file'' \<Longrightarrow>
   next_sibling el = Some (Some href) \<Longrightarrow>
   element_step rec net base_url local_path el s
     = save_file net base_url (re_sub PATTERN_TO_FIND PATTERN_TO_SUB href) local_path s \<and>
   ((\<forall>a b. href \<noteq> a @ ''/src/branch'' @ b) \<longrightarrow>
      re_sub PATTERN_TO_FIND PATTERN_TO_SUB href = href) \<and>
   (\<forall>a b. href = a @ ''/src/branch'' @ b \<and>
          (\<forall>a' b'. href = a' @ ''/src/branch'' @ b' \<longrightarrow> length a \<le> length a') \<longrightarrow>
          re_sub PATTERN_TO_FIND PATTERN_TO_SUB href
            = a @ ''/raw/branch'' @ re_sub PATTERN_TO_FIND PATTERN_TO_SUB b)"
proof -
  assume a: "2 \<le> length (classes el)" "classes el ! 1 = ''octicon-file''"
    "next_sibling el = Some (Some href)"
  let ?u = "re_sub PATTERN_TO_FIND PATTERN_TO_SUB href"
  from a have "element_step rec net base_url local_path el s = save_file net base_url ?u local_path s"
    by (simp add: element_step_def CLASSES_def)
  moreover have "(\<forall>a b. href \<noteq> a @ ''/src/branch'' @ b) \<longrightarrow> ?u = href"
    using re_sub_no_match [of "''/src/branch''" href]
    unfolding PATTERN_TO_FIND_def by blast
  moreover have "\<forall>a b. href = a @ ''/src/branch'' @ b \<and>
             (\<forall>a' b'. href = a' @ ''/src/branch'' @ b' \<longrightarrow> length a \<le> length a') \<longrightarrow>
             ?u = a @ ''/raw/branch'' @ re_sub PATTERN_TO_FIND PATTERN_TO_SUB b"
    using re_sub_first [of "''/src/branch''"]
    unfolding PATTERN_TO_FIND_def PATTERN_TO_SUB_def by blast
  ultimately show ?thesis by blast
qed

theorem file_reference_rewritten_witness:
  "element_step (\<lambda>p u. Returned) (\<lambda>u. ClientConnectorError) ''http://h'' ''d''
     \<lparr>classes = [''svg'', ''octicon-file''],
      next_sibling = Some (Some ''/r/src/branch/master/README.md'')\<rparr>
     \<lparr>fs = Dir [(''d'', Dir [])], sem = 3, trace = []\<rparr>
   = save_file (\<lambda>u. ClientConnectorError) ''http://h'' ''/r/raw/branch/master/README.md'' ''d''
       \<lparr>fs = Dir [(''d'', Dir [])], sem = 3, trace = []\<rparr>"
proof -
  let ?el = "\<lparr>classes = [''svg'', ''octicon-file''],
      next_sibling = Some (Some ''/r/src/branch/master/README.md'')\<rparr>"
  let ?href = "''/r/src/branch/master/README.md''"
  have h: "2 \<le> length (classes ?el)" "classes ?el ! 1 = ''octicon-file''"
    "next_sibling ?el = Some (Some ?href)"
    by simp_all
  have split: "?href = ''/r'' @ ''/src/branch'' @ ''/master/README.md''" by simp
  have first: "\<forall>a' b'. ?href = a' @ ''/src/branch'' @ b' \<longrightarrow> length ''/r'' \<le> length a'"
  proof (intro allI impI)
    fix a' b' :: string
    assume e: "?href = a' @ ''/src/branch'' @ b'"
    show "length ''/r'' \<le> length a'"
    proof (cases a')
      case Nil
      with e show ?thesis by simp
    next
      case (Cons x xs)
      with e show ?thesis by (cases xs) auto
    qed
  qed
  have rest: "re_sub PATTERN_TO_FIND PATTERN_TO_SUB ''/master/README.md'' = ''/master/README.md''"
    by (simp add: re_sub.simps PATTERN_TO_FIND_def)
  from file_reference_rewritten [OF h] split first
  have "re_sub PATTERN_TO_FIND PATTERN_TO_SUB ?href
      = ''/r'' @ ''/raw/branch'' @ re_sub PATTERN_TO_FIND PATTERN_TO_SUB ''/master/README.md''"
    by blast
  with rest have "re_sub PATTERN_TO_FIND PATTERN_TO_SUB ?href = ''/r/raw/branch/master/README.md''"
    by simp
  with file_reference_rewritten [OF h] show ?thesis by simp
qed

lemma for_each_append:
  "for_each step (xs @ ys) s =
     (case for_each step xs s of Returned s' \<Rightarrow> for_each step ys s' | other \<Rightarrow> other)"
  by (induction xs arbitrary: s) (auto split: outcome.splits)

text \<open>
  C10. Let \<open>fetch_data\<close> reach an element of the listing: the elements before it have
  returned. With fewer than two classes it raises IndexError out of \<open>fetch_data\<close>, and with
  two classes and no next sibling AttributeError; the semaphore slot is released on the way
  out. Otherwise the element is downloaded as a file exactly when its second class is
  \<open>octicon-file\<close>, and with any other second class its directory is created and
  \<open>fetch_data\<close> recurses into it; the loop then goes on with the remaining elements.
\<close>

theorem element_classification:
  "acquire s = Some s1 \<Longrightarrow> net (base_url @ url) = Response r \<Longrightarrow>
   listing r = Some (before @ el # rest) \<Longrightarrow>
   for_each (element_step (fetch_data n net base_url) net base_url local_path) before
     (emit (Get (base_url @ url)) s1) = Returned sm \<Longrightarrow>
   (length (classes el) < 2 \<longrightarrow>
      fetch_data (Suc n) net base_url local_path url s = Raised IndexError (release sm)) \<and>
   (2 \<le> length (classes el) \<and> next_sibling el = None \<longrightarrow>
      fetch_data (Suc n) net base_url local_path url s = Raised AttributeError (release sm)) \<and>
   (\<forall>href. 2 \<le> length (classes el) \<and> next_sibling el = Some (Some href) \<longrightarrow>
      fetch_data (Suc n) net base_url local_path url s =
        leave (case
          (if classes el ! 1 = ''octicon-file''
           then save_file net base_url (re_sub PATTERN_TO_FIND PATTERN_TO_SUB href) local_path sm
           else (case makedirs (fs sm) (path_join local_path (last_segment href)) of
                   Inl e \<Rightarrow> Raised e sm
                 | Inr root' \<Rightarrow>
                     fetch_data n net base_url (path_join local_path (last_segment href)) href
                       (sm\<lparr>fs := root'\<rparr>)))
          of Returned s' \<Rightarrow>
               for_each (element_step (fetch_data n net base_url) net base_url local_path) rest s'
           | other \<Rightarrow> other))"
proof -
  assume a: "acquire s = Some s1" "net (base_url @ url) = Response r"
    "listing r = Some (before @ el # rest)"
    "for_each (element_step (fetch_data n net base_url) net base_url local_path) before
     (emit (Get (base_url @ url)) s1) = Returned sm"
  let ?step = "element_step (fetch_data n net base_url) net base_url local_path"
  from a have f: "fetch_data (Suc n) net base_url local_path url s =
    leave (case ?step el sm of Returned s' \<Rightarrow> for_each ?step rest s' | other \<Rightarrow> other)"
    by (simp add: for_each_append)
  show ?thesis
    unfolding f
    by (auto simp: element_step_def CLASSES_def Let_def split: option.splits sum.splits)
qed

theorem element_classification_witness:
  "fetch_data (Suc (Suc 0))
     (\<lambda>u. if u = ''http://h/r'' then
        Response \<lparr>status = 200, content = [], listing = Some [\<lparr>classes = [''octicon-file''], next_sibling = Some (Some ''/r/a'')\<rparr>]\<rparr>
        else ClientConnectorError)
     ''http://h'' ''d'' ''/r'' \<lparr>fs = Dir [(''d'', Dir [])], sem = 3, trace = []\<rparr>
   = Raised IndexError \<lparr>fs = Dir [(''d'', Dir [])], sem = 3, trace = [Acquire, Get ''http://h/r'', Release]\<rparr>
   \<and>
   fetch_data (Suc (Suc 0))
     (\<lambda>u. if u = ''http://h/r'' then
        Response \<lparr>status = 200, content = [], listing = Some [\<lparr>classes = [''svg'', ''octicon-file''], next_sibling = None\<rparr>]\<rparr>
        else ClientConnectorError)
     ''http://h'' ''d'' ''/r'' \<lparr>fs = Dir [(''d'', Dir [])], sem = 3, trace = []\<rparr>
   = Raised AttributeError \<lparr>fs = Dir [(''d'', Dir [])], sem = 3, trace = [Acquire, Get ''http://h/r'', Release]\<rparr>
   \<and>
   fetch_data (Suc (Suc 0))
     (\<lambda>u. if u = ''http://h/r'' then
        Response \<lparr>status = 200, content = [], listing = Some [\<lparr>classes = [''svg'', ''octicon-unknown''], next_sibling = Some (Some ''/r/sub'')\<rparr>]\<rparr>
        else ClientConnectorError)
     ''http://h'' ''d'' ''/r'' \<lparr>fs = Dir [(''d'', Dir [])], sem = 3, trace = []\<rparr>
   = Returned \<lparr>fs = Dir [(''d'', Dir [(''sub'', Dir [])])], sem = 3,
        trace = [Acquire, Get ''http://h/r'', Acquire, Get ''http://h/r/sub'', LogError ''/r/sub'',
                 Release, Release]\<rparr>"
proof -
  let ?s = "\<lparr>fs = Dir [(''d'', Dir [])], sem = 3, trace = []\<rparr>"
  let ?s1 = "\<lparr>fs = Dir [(''d'', Dir [])], sem = 2, trace = [Acquire]\<rparr>"
  let ?sm = "\<lparr>fs = Dir [(''d'', Dir [])], sem = 2, trace = [Acquire, Get ''http://h/r'']\<rparr>"
  let ?net = "\<lambda>el u. if u = ''http://h/r'' then
        Response \<lparr>status = 200, content = [], listing = Some [el]\<rparr>
        else ClientConnectorError"
  have a: "acquire ?s = Some ?s1" by (simp add: acquire_def emit_def)
  have g: "\<And>el. ?net el (''http://h'' @ ''/r'') = Response \<lparr>status = 200, content = [], listing = Some [el]\<rparr>"
    by simp
  have l: "\<And>el. listing \<lparr>status = 200, content = [], listing = Some [el]\<rparr> = Some ([] @ el # [])"
    by simp
  have f: "\<And>el. for_each (element_step (fetch_data (Suc 0) (?net el) ''http://h'') (?net el) ''http://h'' ''d'') []
     (emit (Get (''http://h'' @ ''/r'')) ?s1) = Returned ?sm"
    by (simp add: emit_def)
  note t = element_classification [OF a g l f]
  have 1: "fetch_data (Suc (Suc 0)) (?net \<lparr>classes = [''octicon-file''], next_sibling = Some (Some ''/r/a'')\<rparr>)
      ''http://h'' ''d'' ''/r'' ?s = Raised IndexError (release ?sm)"
    using t [of "\<lparr>classes = [''octicon-file''], next_sibling = Some (Some ''/r/a'')\<rparr>"] by simp
  have 2: "fetch_data (Suc (Suc 0)) (?net \<lparr>classes = [''svg'', ''octicon-file''], next_sibling = None\<rparr>)
      ''http://h'' ''d'' ''/r'' ?s = Raised AttributeError (release ?sm)"
    using t [of "\<lparr>classes = [''svg'', ''octicon-file''], next_sibling = None\<rparr>"] by simp
  have 3: "fetch_data (Suc (Suc 0)) (?net \<lparr>classes = [''svg'', ''octicon-unknown''], next_sibling = Some (Some ''/r/sub'')\<rparr>)
      ''http://h'' ''d'' ''/r'' ?s = Returned \<lparr>fs = Dir [(''d'', Dir [(''sub'', Dir [])])], sem = 3,
        trace = [Acquire, Get ''http://h/r'', Acquire, Get ''http://h/r/sub'', LogError ''/r/sub'',
                 Release, Release]\<rparr>"
    using t [of "\<lparr>classes = [''svg'', ''octicon-unknown''], next_sibling = Some (Some ''/r/sub'')\<rparr>"]
    by (simp add: makedirs_def path_join_def last_segment_def components_def acquire_def
        emit_def release_def)
  from 1 2 3 show ?thesis by (simp add: release_def emit_def)
qed

section \<open>The semaphore\<close>

lemma held_append: "held (xs @ ys) = held xs + held ys"
  by (induction xs) auto

lemma within_budget_snoc:
  "within_budget L (tr @ [e]) \<longleftrightarrow> within_budget L tr \<and> held (tr @ [e]) \<le> int L"
proof -
  have "{..length (tr @ [e])} = insert (Suc (length tr)) {..length tr}"
    by auto
  then show ?thesis
    by (auto simp: within_budget_def)
qed

lemma inv_emit: "e \<noteq> Acquire \<Longrightarrow> e \<noteq> Release \<Longrightarrow> inv L s \<Longrightarrow> inv L (emit e s)"
  by (cases e) (auto simp: inv_def emit_def within_budget_snoc held_append)

lemma inv_fs: "inv L (s\<lparr>fs := r\<rparr>) = inv L s"
  by (simp add: inv_def)

lemma inv_acquire: "inv L s \<Longrightarrow> acquire s = Some s1 \<Longrightarrow> inv L s1"
  by (auto simp: inv_def acquire_def emit_def within_budget_snoc held_append split: if_splits)

lemma inv_release: "inv L s \<Longrightarrow> inv L (release s)"
  by (auto simp: inv_def release_def emit_def within_budget_snoc held_append)

lemma inv_leave: "inv_out L out \<Longrightarrow> inv_out L (leave out)"
  by (cases out) (auto simp: inv_release)

lemma inv_save_file: "inv L s \<Longrightarrow> inv_out L (save_file net base_url url path s)"
  unfolding save_file_def Let_def
  by (auto simp: inv_emit inv_fs inv_release dest: inv_acquire
      split: option.splits get_result.splits sum.splits intro!: inv_leave)

lemma inv_element_step:
  "(\<And>p u s. inv L s \<Longrightarrow> inv_out L (rec p u s)) \<Longrightarrow> inv L s \<Longrightarrow>
   inv_out L (element_step rec net base_url local_path el s)"
  unfolding element_step_def Let_def
  by (auto simp: inv_fs inv_save_file split: option.splits sum.splits)

lemma inv_for_each:
  "(\<And>el s. inv L s \<Longrightarrow> inv_out L (step el s)) \<Longrightarrow> inv L s \<Longrightarrow> inv_out L (for_each step els s)"
proof (induction els arbitrary: s)
  case Nil
  then show ?case by simp
next
  case (Cons el els)
  from Cons.prems have "inv_out L (step el s)" by blast
  with Cons show ?case
    by (cases "step el s") auto
qed

lemma inv_fetch_data: "inv L s \<Longrightarrow> inv_out L (fetch_data n net base_url local_path url s)"
proof (induction n arbitrary: s local_path url)
  case 0
  then show ?case by simp
next
  case (Suc n)
  show ?case
  proof (cases "acquire s")
    case None
    with Suc.prems show ?thesis by simp
  next
    case (Some s1)
    with Suc.prems have i1: "inv L s1" by (rule inv_acquire)
    then have i2: "inv L (emit (Get (base_url @ url)) s1)" by (simp add: inv_emit)
    have "inv_out L (case net (base_url @ url) of
               ClientConnectorError \<Rightarrow> Returned (emit (LogError url) (emit (Get (base_url @ url)) s1))
             | OtherClientError \<Rightarrow> Raised ClientError (emit (Get (base_url @ url)) s1)
             | Response r \<Rightarrow>
                 (case listing r of
                    None \<Rightarrow> Raised AttributeError (emit (Get (base_url @ url)) s1)
                  | Some objects_in_repo \<Rightarrow>
                      for_each
                        (element_step (\<lambda>p u. fetch_data n net base_url p u) net base_url local_path)
                        objects_in_repo (emit (Get (base_url @ url)) s1)))"
      using i2 Suc.IH
      by (auto simp: inv_emit split: get_result.splits option.splits
          intro!: inv_for_each inv_element_step)
    with Some show ?thesis
      by (simp add: Let_def inv_leave)
  qed
qed

lemma good_leave: "good k out \<Longrightarrow> good (Suc k) (leave out)"
  by (cases out) (simp_all add: good_def release_def emit_def)

lemma good_Raised: "good k (Raised e s)"
  by (simp add: good_def)

lemma good_Blocked: "good k (Blocked s)"
  by (simp add: good_def)

lemma good_Returned: "sem s = k \<Longrightarrow> good k (Returned s)"
  by (simp add: good_def)

lemma acquire_0: "sem s = 0 \<Longrightarrow> acquire s = None"
  by (simp add: acquire_def)

lemma acquire_Suc: "sem s = Suc k \<Longrightarrow> \<exists>s1. acquire s = Some s1 \<and> sem s1 = k"
  by (simp add: acquire_def emit_def)

lemma sem_emit: "sem (emit e s) = sem s"
  by (simp add: emit_def)

lemma good_save_file: "sem s = k \<Longrightarrow> good k (save_file net base_url url path s)"
proof (cases k)
  case 0
  assume "sem s = k"
  with 0 have "acquire s = None" by (simp add: acquire_0)
  then show ?thesis by (simp add: save_file_def Let_def good_Blocked)
next
  case (Suc j)
  assume "sem s = k"
  with Suc obtain s1 where s1: "acquire s = Some s1" "sem s1 = j"
    using acquire_Suc by blast
  let ?s2 = "emit (Get (base_url @ url)) s1"
  let ?dest = "path @ ''/'' @ last_segment url"
  have "good j (case net (base_url @ url) of
               ClientConnectorError \<Rightarrow> Returned (emit (LogError url) ?s2)
             | OtherClientError \<Rightarrow> Raised ClientError ?s2
             | Response r \<Rightarrow>
                 (case open_w (fs ?s2) ?dest of
                    Inl e \<Rightarrow> Raised e ?s2
                  | Inr root' \<Rightarrow>
                      Returned (?s2\<lparr>fs := write_chunks ?dest (content r) root'\<rparr>)))"
    using s1(2)
    by (simp add: good_def sem_emit split: get_result.splits sum.splits)
  then have "good (Suc j) (save_file net base_url url path s)"
    using s1(1) by (simp add: save_file_def Let_def good_leave)
  with Suc show ?thesis by simp
qed

lemma good_element_step:
  assumes "\<And>p u s. sem s = k \<Longrightarrow> good k (rec p u s)" and "sem s = k"
  shows "good k (element_step rec net base_url local_path el s)"
proof -
  have r: "\<And>p u root'. good k (rec p u (s\<lparr>fs := root'\<rparr>))"
    using assms by simp
  show ?thesis
    unfolding element_step_def Let_def
    by (simp add: good_Raised good_save_file [OF assms(2)] r split: option.splits sum.splits)
qed

lemma good_for_each:
  assumes "\<And>el s. sem s = k \<Longrightarrow> good k (step el s)"
  shows "sem s = k \<Longrightarrow> good k (for_each step els s)"
proof (induction els arbitrary: s)
  case Nil
  then show ?case by (simp add: good_Returned)
next
  case (Cons el els)
  from Cons.prems have g: "good k (step el s)" by (rule assms)
  show ?case
  proof (cases "step el s")
    case (Returned s')
    with g have "sem s' = k" by (simp add: good_def)
    then have "good k (for_each step els s')" by (rule Cons.IH)
    with Returned show ?thesis by simp
  next
    case (Raised e s')
    then show ?thesis by (simp add: good_Raised)
  next
    case (Blocked s')
    then show ?thesis by (simp add: good_Blocked)
  next
    case OutOfFuel
    with g show ?thesis by (simp add: good_def)
  qed
qed

lemma good_fetch_data:
  "sem s < n \<Longrightarrow> good (sem s) (fetch_data n net base_url local_path url s)"
proof (induction n arbitrary: s local_path url)
  case 0
  then show ?case by simp
next
  case (Suc n)
  show ?case
  proof (cases "sem s")
    case 0
    then have "acquire s = None" by (rule acquire_0)
    then show ?thesis by (simp add: good_Blocked)
  next
    case (Suc j)
    then obtain s1 where s1: "acquire s = Some s1" "sem s1 = j"
      using acquire_Suc by blast
    let ?s2 = "emit (Get (base_url @ url)) s1"
    from s1 have k2: "sem ?s2 = j" by (simp add: sem_emit)
    from Suc Suc.prems have "j < n" by simp
    have rec: "good j (fetch_data n net base_url p u s')" if "sem s' = j" for p u s'
      using Suc.IH [of s' p u] that \<open>j < n\<close> by simp
    have step: "good j (element_step (\<lambda>p u. fetch_data n net base_url p u) net base_url local_path el s')"
      if "sem s' = j" for el s'
      by (rule good_element_step [OF rec that])
    have "good j (case net (base_url @ url) of
               ClientConnectorError \<Rightarrow> Returned (emit (LogError url) ?s2)
             | OtherClientError \<Rightarrow> Raised ClientError ?s2
             | Response r \<Rightarrow>
                 (case listing r of
                    None \<Rightarrow> Raised AttributeError ?s2
                  | Some objects_in_repo \<Rightarrow>
                      for_each
                        (element_step (\<lambda>p u. fetch_data n net base_url p u) net base_url local_path)
                        objects_in_repo ?s2))"
    proof (cases "net (base_url @ url)")
      case ClientConnectorError
      with k2 show ?thesis by (simp add: good_def sem_emit)
    next
      case OtherClientError
      then show ?thesis by (simp add: good_Raised)
    next
      case (Response r)
      show ?thesis
      proof (cases "listing r")
        case None
        with Response show ?thesis by (simp add: good_Raised)
      next
        case (Some els)
        have "good j (for_each (element_step (\<lambda>p u. fetch_data n net base_url p u) net base_url local_path) els ?s2)"
          using step k2 by (rule good_for_each)
        with Response Some show ?thesis by simp
      qed
    qed
    then have "good (Suc j) (fetch_data (Suc n) net base_url local_path url s)"
      using s1(1) by (simp add: Let_def good_leave)
    with Suc show ?thesis by simp
  qed
qed

lemma for_each_chain:
  "for_each step els s = Returned s' \<Longrightarrow>
   \<exists>ss. length ss = Suc (length els) \<and> ss ! 0 = s \<and> last ss = s' \<and>
        (\<forall>i<length els. step (els ! i) (ss ! i) = Returned (ss ! Suc i))"
proof (induction els arbitrary: s)
  case Nil
  then show ?case by (intro exI [of _ "[s]"]) simp
next
  case (Cons el els)
  then obtain sm where sm: "step el s = Returned sm" "for_each step els sm = Returned s'"
    by (auto split: outcome.splits)
  from Cons.IH [OF sm(2)] obtain ss where ss: "length ss = Suc (length els)" "ss ! 0 = sm"
    "last ss = s'" "\<forall>i<length els. step (els ! i) (ss ! i) = Returned (ss ! Suc i)"
    by blast
  have "\<forall>i<length (el # els). step ((el # els) ! i) ((s # ss) ! i) = Returned ((s # ss) ! Suc i)"
  proof (intro allI impI)
    fix i assume "i < length (el # els)"
    with sm ss show "step ((el # els) ! i) ((s # ss) ! i) = Returned ((s # ss) ! Suc i)"
      by (cases i) auto
  qed
  moreover from ss have "last (s # ss) = s'" "length (s # ss) = Suc (length (el # els))"
    by auto
  ultimately show ?case
    by (intro exI [of _ "s # ss"]) simp
qed

lemmas run_defs = start_def SEMAPHORE_LIMIT_def page_def dir_entry_def file_entry_def
  acquire_def release_def emit_def element_step_def save_file_def Let_def CLASSES_def
  PATTERN_TO_FIND_def PATTERN_TO_SUB_def re_sub.simps makedirs_def path_join_def
  last_segment_def components_def open_w_def write_chunks.simps append_file_def

text \<open>
  C2 (amended). The entries of one listing are awaited one by one, in listing order: when
  \<open>fetch_data\<close> returns for a listing, there is a chain of states, one per entry, in which
  each entry's download or recursion starts in the state where the previous one returned,
  every one of them has returned, and the call's slot is released after the last.
\<close>

theorem entries_awaited_in_order:
  "fetch_data (Suc n) net base_url local_path url s = Returned s' \<Longrightarrow>
   net (base_url @ url) = Response r \<Longrightarrow> listing r = Some els \<Longrightarrow>
   \<exists>s1 ss. acquire s = Some s1 \<and> length ss = Suc (length els) \<and>
     ss ! 0 = emit (Get (base_url @ url)) s1 \<and>
     (\<forall>i<length els.
        element_step (fetch_data n net base_url) net base_url local_path (els ! i) (ss ! i)
          = Returned (ss ! Suc i)) \<and>
     s' = release (last ss)"
proof -
  assume a: "fetch_data (Suc n) net base_url local_path url s = Returned s'"
    "net (base_url @ url) = Response r" "listing r = Some els"
  let ?step = "element_step (fetch_data n net base_url) net base_url local_path"
  from a obtain s1 where s1: "acquire s = Some s1"
    by (auto split: option.splits)
  with a obtain s2 where s2: "for_each ?step els (emit (Get (base_url @ url)) s1) = Returned s2"
    "s' = release s2"
    by (cases "for_each ?step els (emit (Get (base_url @ url)) s1)") (auto simp: Let_def)
  from for_each_chain [OF s2(1)] s1 s2(2) show ?thesis by blast
qed

theorem entries_awaited_in_order_witness:
  "\<exists>s1 ss. acquire start = Some s1 \<and> length ss = 3 \<and>
     ss ! 0 = emit (Get ''http://h/r'') s1 \<and>
     element_step (fetch_data (Suc 0) flat_site ''http://h'') flat_site ''http://h'' ''d''
        (file_entry ''/r/src/branch/m/a'') (ss ! 0) = Returned (ss ! 1) \<and>
     element_step (fetch_data (Suc 0) flat_site ''http://h'') flat_site ''http://h'' ''d''
        (file_entry ''/r/src/branch/m/b'') (ss ! 1) = Returned (ss ! 2) \<and>
     fetch_data (Suc (Suc 0)) flat_site ''http://h'' ''d'' ''/r'' start = Returned (release (ss ! 2))"
proof -
  let ?els = "[file_entry ''/r/src/branch/m/a'', file_entry ''/r/src/branch/m/b'']"
  let ?r = "\<lparr>status = 200, content = [], listing = Some ?els\<rparr>"
  have "\<exists>s'. fetch_data (Suc (Suc 0)) flat_site ''http://h'' ''d'' ''/r'' start = Returned s'"
    by (simp add: flat_site_def run_defs)
  then obtain s' where r: "fetch_data (Suc (Suc 0)) flat_site ''http://h'' ''d'' ''/r'' start = Returned s'" ..
  have n: "flat_site (''http://h'' @ ''/r'') = Response ?r"
    by (simp add: flat_site_def page_def)
  have l: "listing ?r = Some ?els" by simp
  from entries_awaited_in_order [OF r n l] obtain s1 ss where
    a: "acquire start = Some s1" "length ss = Suc (length ?els)"
      "ss ! 0 = emit (Get (''http://h'' @ ''/r'')) s1"
      "\<forall>i<length ?els. element_step (fetch_data (Suc 0) flat_site ''http://h'') flat_site ''http://h'' ''d''
          (?els ! i) (ss ! i) = Returned (ss ! Suc i)"
      "s' = release (last ss)"
    by blast
  from a(2) have "last ss = ss ! 2"
    by (cases ss rule: rev_cases) (auto simp: nth_append)
  moreover from a(4) [rule_format, of 0]
  have "element_step (fetch_data (Suc 0) flat_site ''http://h'') flat_site ''http://h'' ''d''
          (file_entry ''/r/src/branch/m/a'') (ss ! 0) = Returned (ss ! 1)"
    by simp
  moreover from a(4) [rule_format, of "Suc 0"]
  have "element_step (fetch_data (Suc 0) flat_site ''http://h'') flat_site ''http://h'' ''d''
          (file_entry ''/r/src/branch/m/b'') (ss ! 1) = Returned (ss ! 2)"
    by (simp add: numeral_2_eq_2)
  ultimately show ?thesis
    using a r by (intro exI [of _ s1] exI [of _ ss]) (simp add: numeral_2_eq_2)
qed

text \<open>
  C1. The slot of a listing is held while its entries are processed. On a site with a file
  in a directory at depth three, the three nested listings hold all three slots of
  \<open>SEMAPHORE_LIMIT\<close>, and the download's acquire waits for ever.
\<close>

theorem listing_slot_held_deadlock:
  "fetch_data (Suc (Suc (Suc (Suc 0)))) deep_site ''http://h'' ''d'' ''/r'' start
   = Blocked \<lparr>fs = Dir [(''d'', Dir [(''a'', Dir [(''b'', Dir [])])])], sem = 0,
       trace = [Acquire, Get ''http://h/r'', Acquire, Get ''http://h/r/a'',
                Acquire, Get ''http://h/r/a/b'']\<rparr>"
  by (simp add: deep_site_def run_defs)

text \<open>
  C2, as stated, fails: for a listing of two files the second download is requested only
  after the first has released its slot.
\<close>

theorem siblings_not_concurrent:
  "outcome_trace (fetch_data (Suc (Suc 0)) flat_site ''http://h'' ''d'' ''/r'' start)
   = [Acquire, Get ''http://h/r'',
      Acquire, Get ''http://h/r/raw/branch/m/a'', Release,
      Acquire, Get ''http://h/r/raw/branch/m/b'', Release, Release]
   \<and> \<not> overlap
       (outcome_trace (fetch_data (Suc (Suc 0)) flat_site ''http://h'' ''d'' ''/r'' start))
       ''http://h/r/raw/branch/m/a'' ''http://h/r/raw/branch/m/b''"
  by (simp add: flat_site_def run_defs overlap_def)

lemma fetch_data_bound:
  "SEMAPHORE_LIMIT < n \<Longrightarrow>
   fetch_data n net base_url local_path url \<lparr>fs = root, sem = SEMAPHORE_LIMIT, trace = []\<rparr>
     \<noteq> OutOfFuel \<and>
   within_budget SEMAPHORE_LIMIT
     (outcome_trace
       (fetch_data n net base_url local_path url \<lparr>fs = root, sem = SEMAPHORE_LIMIT, trace = []\<rparr>))"
proof -
  assume n: "SEMAPHORE_LIMIT < n"
  let ?s = "\<lparr>fs = root, sem = SEMAPHORE_LIMIT, trace = []\<rparr>"
  let ?out = "fetch_data n net base_url local_path url ?s"
  have "inv SEMAPHORE_LIMIT ?s"
    by (simp add: inv_def within_budget_def)
  then have i: "inv_out SEMAPHORE_LIMIT ?out" by (rule inv_fetch_data)
  from n have "sem ?s < n" by simp
  then have "good (sem ?s) ?out" by (rule good_fetch_data)
  then have f: "?out \<noteq> OutOfFuel" by (simp add: good_def)
  from i have "within_budget SEMAPHORE_LIMIT (outcome_trace ?out)"
    by (cases ?out) (simp_all add: inv_def within_budget_def)
  with f show ?thesis by simp
qed

lemma replay_append:
  "replay st (xs @ ys) = (case replay st xs of None \<Rightarrow> None | Some st' \<Rightarrow> replay st' ys)"
proof (induction st xs rule: replay.induct)
  case (3 st tr)
  then show ?case by (cases st) auto
next
  case (4 st u tr)
  then show ?case by (cases st) auto
qed auto

lemma operations_gated_snoc:
  "operations_gated L (tr @ [e]) \<longleftrightarrow>
   operations_gated L tr \<and>
   (case replay [] (tr @ [e]) of None \<Rightarrow> False
    | Some st \<Rightarrow> list_all (\<lambda>c. c \<le> 1) st \<and> length st \<le> L)"
proof -
  have "{..length (tr @ [e])} = insert (Suc (length tr)) {..length tr}"
    by auto
  then show ?thesis
    by (auto simp: operations_gated_def)
qed

lemma gated_stack: "gated L st s \<Longrightarrow> list_all (\<lambda>c. c \<le> 1) st \<and> length st \<le> L"
proof -
  assume g: "gated L st s"
  then have "operations_gated L (trace s)" "replay [] (trace s) = Some st"
    by (simp_all add: gated_def)
  then show ?thesis
    unfolding operations_gated_def
    by (auto dest!: bspec [of _ _ "length (trace s)"])
qed

lemma gated_fs: "gated L st (s\<lparr>fs := r\<rparr>) = gated L st s"
  by (simp add: gated_def)

lemma gated_log: "gated L st s \<Longrightarrow> gated L st (emit (LogError u) s)"
  using gated_stack [of L st s]
  by (simp add: gated_def emit_def operations_gated_snoc replay_append)

lemma gated_acquire_get:
  assumes "gated L st s" and "acquire s = Some s1"
  shows "gated L (Suc 0 # st) (emit (Get u) s1)"
proof -
  from assms(2) have s1: "s1 = emit Acquire (s\<lparr>sem := sem s - 1\<rparr>)" and p: "0 < sem s"
    by (auto simp: acquire_def split: if_splits)
  from assms(1) have r: "replay [] (trace s) = Some st" and l: "length st + sem s = L"
    and g: "operations_gated L (trace s)"
    by (simp_all add: gated_def)
  from gated_stack [OF assms(1)] have a: "list_all (\<lambda>c. c \<le> 1) st" by simp
  from p l have b: "Suc (length st) \<le> L" by simp
  have t: "trace (emit (Get u) s1) = (trace s @ [Acquire]) @ [Get u]"
    by (simp add: s1 emit_def)
  have r1: "replay [] (trace s @ [Acquire]) = Some (0 # st)"
    using r by (simp add: replay_append)
  have g1: "operations_gated L (trace s @ [Acquire])"
    unfolding operations_gated_snoc r1 using g a b by simp
  have r2: "replay [] ((trace s @ [Acquire]) @ [Get u]) = Some (Suc 0 # st)"
    using r by (simp add: replay_append)
  have "operations_gated L ((trace s @ [Acquire]) @ [Get u])"
    unfolding operations_gated_snoc [of L "trace s @ [Acquire]" "Get u"] r2
    using g1 a b by simp
  moreover note r2
  moreover have "length (Suc 0 # st) + sem (emit (Get u) s1) = L"
    using l p by (simp add: s1 emit_def)
  ultimately show ?thesis unfolding gated_def t by blast
qed

lemma gated_release: "gated L (c # st) s \<Longrightarrow> gated L st (release s)"
proof -
  assume g: "gated L (c # st) s"
  from gated_stack [OF g] have "list_all (\<lambda>c. c \<le> 1) st" "length st \<le> L" by simp_all
  with g show ?thesis
    by (simp add: gated_def release_def emit_def operations_gated_snoc replay_append)
qed

lemma gated_leave: "gated_out L (c # st) out \<Longrightarrow> gated_out L st (leave out)"
  by (cases out) (auto simp: gated_release)

lemma gated_Blocked: "gated L st s \<Longrightarrow> gated_out L st' (Blocked s)"
  by auto

lemma gated_save_file:
  assumes "gated L st s"
  shows "gated_out L st (save_file net base_url url path s)"
proof (cases "acquire s")
  case None
  with assms show ?thesis by (auto simp: save_file_def Let_def)
next
  case (Some s1)
  let ?s2 = "emit (Get (base_url @ url)) s1"
  let ?dest = "path @ ''/'' @ last_segment url"
  from assms Some have g: "gated L (Suc 0 # st) ?s2" by (rule gated_acquire_get)
  then have "gated_out L (Suc 0 # st) (case net (base_url @ url) of
               ClientConnectorError \<Rightarrow> Returned (emit (LogError url) ?s2)
             | OtherClientError \<Rightarrow> Raised ClientError ?s2
             | Response r \<Rightarrow>
                 (case open_w (fs ?s2) ?dest of
                    Inl e \<Rightarrow> Raised e ?s2
                  | Inr root' \<Rightarrow>
                      Returned (?s2\<lparr>fs := write_chunks ?dest (content r) root'\<rparr>)))"
    by (simp add: gated_log gated_fs split: get_result.splits sum.splits)
  then show ?thesis
    using Some by (simp add: save_file_def Let_def gated_leave)
qed

lemma gated_element_step:
  assumes "\<And>p u s. gated L st s \<Longrightarrow> gated_out L st (rec p u s)" and "gated L st s"
  shows "gated_out L st (element_step rec net base_url local_path el s)"
proof -
  have r: "\<And>p u root'. gated_out L st (rec p u (s\<lparr>fs := root'\<rparr>))"
    using assms by (simp add: gated_fs)
  show ?thesis
    unfolding element_step_def Let_def
    using assms(2)
    by (simp add: gated_save_file r split: option.splits sum.splits)
qed

lemma gated_for_each:
  assumes "\<And>el s. gated L st s \<Longrightarrow> gated_out L st (step el s)"
  shows "gated L st s \<Longrightarrow> gated_out L st (for_each step els s)"
proof (induction els arbitrary: s)
  case Nil
  then show ?case by simp
next
  case (Cons el els)
  from Cons.prems have g: "gated_out L st (step el s)" by (rule assms)
  show ?case
  proof (cases "step el s")
    case (Returned s')
    with g have "gated L st s'" by simp
    then have "gated_out L st (for_each step els s')" by (rule Cons.IH)
    with Returned show ?thesis by simp
  qed (use g in simp_all)
qed

lemma gated_fetch_data:
  "gated L st s \<Longrightarrow> gated_out L st (fetch_data n net base_url local_path url s)"
proof (induction n arbitrary: st s local_path url)
  case 0
  then show ?case by simp
next
  case (Suc n)
  show ?case
  proof (cases "acquire s")
    case None
    with Suc.prems show ?thesis by auto
  next
    case (Some s1)
    let ?s2 = "emit (Get (base_url @ url)) s1"
    let ?st = "Suc 0 # st"
    from Suc.prems Some have g: "gated L ?st ?s2" by (rule gated_acquire_get)
    have step: "gated_out L ?st (element_step (\<lambda>p u. fetch_data n net base_url p u) net base_url local_path el s')"
      if "gated L ?st s'" for el s'
      by (rule gated_element_step [OF Suc.IH that])
    have "gated_out L ?st (case net (base_url @ url) of
               ClientConnectorError \<Rightarrow> Returned (emit (LogError url) ?s2)
             | OtherClientError \<Rightarrow> Raised ClientError ?s2
             | Response r \<Rightarrow>
                 (case listing r of
                    None \<Rightarrow> Raised AttributeError ?s2
                  | Some objects_in_repo \<Rightarrow>
                      for_each
                        (element_step (\<lambda>p u. fetch_data n net base_url p u) net base_url local_path)
                        objects_in_repo ?s2))"
    proof (cases "net (base_url @ url)")
      case ClientConnectorError
      with g show ?thesis by (simp add: gated_log)
    next
      case OtherClientError
      with g show ?thesis by simp
    next
      case (Response r)
      show ?thesis
      proof (cases "listing r")
        case None
        with Response g show ?thesis by simp
      next
        case (Some els)
        have "gated_out L ?st (for_each (element_step (\<lambda>p u. fetch_data n net base_url p u) net base_url local_path) els ?s2)"
          using step g by (rule gated_for_each)
        with Response Some show ?thesis by simp
      qed
    qed
    then show ?thesis
      using Some by (simp add: Let_def gated_leave)
  qed
qed

lemma replay_held: "replay st tr = Some st' \<Longrightarrow> int (length st') = int (length st) + held tr"
proof (induction st tr rule: replay.induct)
  case (3 st tr)
  then show ?case by (cases st) auto
next
  case (4 st u tr)
  then show ?case by (cases st) auto
qed auto

lemma sum_list_le_length: "list_all (\<lambda>c. c \<le> (1::nat)) st \<Longrightarrow> sum_list st \<le> length st"
  by (induction st) auto

lemma operations_gated_active:
  assumes "operations_gated L tr" and "k \<in> {..length tr}"
  shows "int (active_operations (take k tr)) \<le> held (take k tr) \<and> active_operations (take k tr) \<le> L"
proof -
  from assms obtain st where st: "replay [] (take k tr) = Some st"
    "list_all (\<lambda>c. c \<le> 1) st" "length st \<le> L"
    unfolding operations_gated_def
    by (cases "replay [] (take k tr)") (auto dest!: bspec [of _ _ k])
  from st(2) have "sum_list st \<le> length st" by (rule sum_list_le_length)
  moreover from replay_held [OF st(1)] have "int (length st) = held (take k tr)" by simp
  ultimately show ?thesis using st(1,3) by (simp add: active_operations_def)
qed

text \<open>A request outside every slot, and a second request under one slot, are refused.\<close>

lemma operations_gated_refuses:
  "\<not> operations_gated 3 [Get u]" "\<not> operations_gated 3 [Acquire, Get u, Get v]"
proof -
  show "\<not> operations_gated 3 [Get u]"
  proof
    assume a: "operations_gated 3 [Get u]"
    have "Suc 0 \<in> {..length [Get u]}" by simp
    with a have "case replay [] (take (Suc 0) [Get u]) of None \<Rightarrow> False
        | Some st \<Rightarrow> list_all (\<lambda>c. c \<le> 1) st \<and> length st \<le> 3"
      unfolding operations_gated_def by (rule bspec)
    then show False by simp
  qed
  show "\<not> operations_gated 3 [Acquire, Get u, Get v]"
  proof
    assume a: "operations_gated 3 [Acquire, Get u, Get v]"
    have "3 \<in> {..length [Acquire, Get u, Get v]}" by simp
    with a have "case replay [] (take 3 [Acquire, Get u, Get v]) of None \<Rightarrow> False
        | Some st \<Rightarrow> list_all (\<lambda>c. c \<le> 1) st \<and> length st \<le> 3"
      unfolding operations_gated_def by (rule bspec)
    then show False by simp
  qed
qed

lemma fetch_data_gated:
  "operations_gated SEMAPHORE_LIMIT
     (outcome_trace
       (fetch_data n net base_url local_path url \<lparr>fs = root, sem = SEMAPHORE_LIMIT, trace = []\<rparr>))"
proof -
  let ?s = "\<lparr>fs = root, sem = SEMAPHORE_LIMIT, trace = []\<rparr>"
  let ?out = "fetch_data n net base_url local_path url ?s"
  have "gated SEMAPHORE_LIMIT [] ?s"
    by (simp add: gated_def operations_gated_def)
  then have "gated_out SEMAPHORE_LIMIT [] ?out" by (rule gated_fetch_data)
  then show ?thesis
    by (cases ?out) (auto simp: gated_def operations_gated_def)
qed

text \<open>
  C6. \<open>main\<close> creates the semaphore with \<open>SEMAPHORE_LIMIT = 3\<close> slots. Given fuel
  beyond that limit the run does not run out of fuel, and at every instant of the run (every
  prefix of its trace, whether the run returns, raises or blocks): at most three slots are
  held; every GET, of a listing or of a file, is issued under a held slot that carries no
  other request; so the network operations in flight are at most the slots held, and at
  most three.
\<close>

theorem concurrency_bound:
  "SEMAPHORE_LIMIT < n \<Longrightarrow>
   main n net base_url project_url path_prefix root \<noteq> OutOfFuel \<and>
   within_budget SEMAPHORE_LIMIT (outcome_trace (main n net base_url project_url path_prefix root)) \<and>
   operations_gated SEMAPHORE_LIMIT
     (outcome_trace (main n net base_url project_url path_prefix root)) \<and>
   (\<forall>k \<in> {..length (outcome_trace (main n net base_url project_url path_prefix root))}.
      int (active_operations
             (take k (outcome_trace (main n net base_url project_url path_prefix root))))
        \<le> held (take k (outcome_trace (main n net base_url project_url path_prefix root))) \<and>
      active_operations
        (take k (outcome_trace (main n net base_url project_url path_prefix root)))
        \<le> SEMAPHORE_LIMIT)"
proof -
  assume n: "SEMAPHORE_LIMIT < n"
  let ?p = "path_join path_prefix (last_segment project_url)"
  let ?T = "outcome_trace (main n net base_url project_url path_prefix root)"
  have a: "main n net base_url project_url path_prefix root \<noteq> OutOfFuel \<and>
      within_budget SEMAPHORE_LIMIT ?T \<and> operations_gated SEMAPHORE_LIMIT ?T"
  proof (cases "makedirs root ?p")
    case (Inl e)
    then show ?thesis
      by (simp add: main_def Let_def within_budget_def operations_gated_def)
  next
    case (Inr root')
    let ?out = "fetch_data n net base_url ?p project_url \<lparr>fs = root', sem = SEMAPHORE_LIMIT, trace = []\<rparr>"
    from fetch_data_bound [OF n, of net base_url ?p project_url root']
    have b: "?out \<noteq> OutOfFuel" "within_budget SEMAPHORE_LIMIT (outcome_trace ?out)"
      by simp_all
    have g: "operations_gated SEMAPHORE_LIMIT (outcome_trace ?out)"
      by (rule fetch_data_gated)
    have m: "main n net base_url project_url path_prefix root =
      (case ?out of
         Returned s \<Rightarrow>
           (case calculate_sha256_for_directory ?p (path_join path_prefix PATH_TO_RESULT) (fs s) of
              Inl e \<Rightarrow> Raised e s
            | Inr root'' \<Rightarrow> Returned (s\<lparr>fs := root''\<rparr>))
       | other \<Rightarrow> other)"
      using Inr by (simp add: main_def Let_def)
    from b g show ?thesis
      unfolding m by (cases ?out) (auto split: sum.splits)
  qed
  then have "operations_gated SEMAPHORE_LIMIT ?T" by simp
  then have "\<forall>k \<in> {..length ?T}.
      int (active_operations (take k ?T)) \<le> held (take k ?T) \<and>
      active_operations (take k ?T) \<le> SEMAPHORE_LIMIT"
    using operations_gated_active by blast
  with a show ?thesis by blast
qed

theorem concurrency_bound_witness:
  "main 4 deep_site ''http://h'' ''/r'' ''d'' (Dir []) \<noteq> OutOfFuel \<and>
   within_budget SEMAPHORE_LIMIT (outcome_trace (main 4 deep_site ''http://h'' ''/r'' ''d'' (Dir []))) \<and>
   operations_gated SEMAPHORE_LIMIT
     (outcome_trace (main 4 deep_site ''http://h'' ''/r'' ''d'' (Dir []))) \<and>
   outcome_trace (main 4 deep_site ''http://h'' ''/r'' ''d'' (Dir []))
     = [Acquire, Get ''http://h/r'', Acquire, Get ''http://h/r/a'', Acquire, Get ''http://h/r/a/b''] \<and>
   active_operations (outcome_trace (main 4 deep_site ''http://h'' ''/r'' ''d'' (Dir []))) = 3 \<and>
   active_operations (outcome_trace (main 4 deep_site ''http://h'' ''/r'' ''d'' (Dir [])))
     \<le> SEMAPHORE_LIMIT"
proof -
  let ?T = "outcome_trace (main 4 deep_site ''http://h'' ''/r'' ''d'' (Dir []))"
  have "(3::nat) < 4" by simp
  then have "SEMAPHORE_LIMIT < 4" by (simp add: SEMAPHORE_LIMIT_def)
  note c = concurrency_bound [OF this, of deep_site "''http://h''" "''/r''" "''d''" "Dir []"]
  have t: "?T = [Acquire, Get ''http://h/r'', Acquire, Get ''http://h/r/a'', Acquire, Get ''http://h/r/a/b'']"
    by (simp add: main_def deep_site_def run_defs eval_nat_numeral)
  have l: "length ?T \<in> {..length ?T}" by simp
  from c have "active_operations (take (length ?T) ?T) \<le> SEMAPHORE_LIMIT"
    using l by blast
  then have b: "active_operations ?T \<le> SEMAPHORE_LIMIT" by simp
  have "active_operations ?T = 3"
    unfolding t by (simp add: active_operations_def)
  with c t b show ?thesis by simp
qed

section \<open>Hashing\<close>

lemma replicate_numeral: "replicate (numeral k) x = x # replicate (pred_numeral k) x"
  by (simp add: numeral_eq_Suc)

lemma pad_abc:
  "pad (map of_char ''abc'') =
     [97, 98, 99, 128] @ replicate 52 0 @ [0, 0, 0, 0, 0, 0, 0, 24]"
  by (simp add: pad_def)

lemma words_abc:
  "be_words (pad (map of_char ''abc'')) = [0x61626380, 0, 0, 0, 0, 0, 0, 0, 0, 0, 0, 0, 0, 0, 0, 0x18]"
  unfolding pad_abc by (simp add: replicate_numeral)

lemma blocks_abc: "blocks (pad (map of_char ''abc'')) = [pad (map of_char ''abc'')]"
proof -
  have l: "length (pad (map of_char ''abc'')) = 64" by (simp add: pad_def)
  have n: "pad (map of_char ''abc'') \<noteq> []" by (simp add: pad_def)
  have "blocks (pad (map of_char ''abc'')) =
      take 64 (pad (map of_char ''abc'')) # blocks (drop 64 (pad (map of_char ''abc'')))"
    using n by (subst blocks.simps) simp
  also have "take 64 (pad (map of_char ''abc'')) = pad (map of_char ''abc'')"
    using l by simp
  also have "drop 64 (pad (map of_char ''abc'')) = []"
    using l by simp
  also have "blocks [] = []" by (subst blocks.simps) simp
  finally show ?thesis .
qed

lemma sha256_abc_state:
  "sha256 ''abc'' = add_state H0 (rounds K256 [0x61626380, 0, 0, 0, 0, 0, 0, 0, 0, 0, 0, 0, 0, 0, 0, 0x18] H0)"
  by (simp only: sha256_def blocks_abc foldl.simps compress_def words_abc)

lemmas sha_defs = K256_def H0_def next_window_def Sigma0_def Sigma1_def sigma0_def sigma1_def
  Ch_def Maj_def rotr_def shr_def add32_def not32_def

text \<open>The test vector of FIPS 180-4 for the message \<open>abc\<close>.\<close>

lemma sha256_abc:
  "hexdigest (sha256 ''abc'') = ''ba7816bf8f01cfea414140de5dae2223b00361a396177a9cb410ff61f20015ad''"
  unfolding sha256_abc_state
  by (simp add: sha_defs hex_u32_def hex_digit_def)








section \<open>The manifest walk\<close>

lemma str_split_not_Nil: "str_split c s \<noteq> []"
  by (induction s) (auto split: list.splits)

lemma str_split_no_sep: "c \<notin> set n \<Longrightarrow> str_split c n = [n]"
  by (induction n) auto

lemma str_split_sep: "str_split c (a @ c # b) = str_split c a @ str_split c b"
proof (induction a)
  case Nil
  show ?case by simp
next
  case (Cons x a)
  obtain y ys where "str_split c a = y # ys"
    using str_split_not_Nil [of c a] by (cases "str_split c a") auto
  with Cons show ?case by simp
qed

lemma components_Nil: "components [] = []"
  by (simp add: components_def)

lemma components_valid: "valid_name n \<Longrightarrow> components n = [n]"
  by (simp add: components_def valid_name_def str_split_no_sep)

lemma components_sep: "components (a @ CHR ''/'' # b) = components a @ components b"
  by (simp add: components_def str_split_sep)

lemma components_path_join:
  assumes "valid_name n"
  shows "components (path_join a n) = components a @ [n]"
proof -
  from assms have h: "\<not> (n \<noteq> [] \<and> hd n = CHR ''/'')"
    by (cases n) (auto simp: valid_name_def)
  show ?thesis
  proof (cases "a = [] \<or> last a = CHR ''/''")
    case False
    with h have "path_join a n = a @ CHR ''/'' # n" by (simp add: path_join_def)
    then show ?thesis by (simp add: components_sep components_valid [OF assms])
  next
    case True
    have p: "path_join a n = a @ n"
      using h True unfolding path_join_def by (cases n) auto
    show ?thesis
    proof (cases "a = []")
      case True
      with p show ?thesis by (simp add: components_Nil components_valid [OF assms])
    next
      case False
      with True obtain a' where a: "a = a' @ [CHR ''/'']"
        by (metis append_butlast_last_id)
      then have "components a = components a'"
        using components_sep [of a' "[]"] by (simp add: components_Nil)
      moreover from a p have "path_join a n = a' @ CHR ''/'' # n" by simp
      ultimately show ?thesis
        by (simp add: components_sep components_valid [OF assms])
    qed
  qed
qed

lemma path_join_last:
  assumes "valid_name n"
  shows "path_join a n \<noteq> [] \<and> last (path_join a n) \<noteq> CHR ''/''"
proof -
  from assms have n: "n \<noteq> []" "CHR ''/'' \<notin> set n"
    by (auto simp: valid_name_def)
  then have "last n \<noteq> CHR ''/''"
    by (metis last_in_set)
  with n show ?thesis
    by (auto simp: path_join_def)
qed

lemma components_foldl_path_join:
  "list_all valid_name cs \<Longrightarrow> components (foldl path_join a cs) = components a @ cs"
  by (induction cs arbitrary: a) (simp_all add: components_path_join)

lemma foldl_path_join_last:
  "list_all valid_name cs \<Longrightarrow> cs \<noteq> [] \<Longrightarrow>
   foldl path_join a cs \<noteq> [] \<and> last (foldl path_join a cs) \<noteq> CHR ''/''"
proof (induction cs arbitrary: a rule: rev_induct)
  case Nil
  then show ?case by simp
next
  case (snoc c cs)
  then have "valid_name c" by simp
  then show ?case by (simp add: path_join_last)
qed

lemma lookup_append:
  "lookup n (xs @ ys) = (case lookup n xs of None \<Rightarrow> None | Some m \<Rightarrow> lookup m ys)"
  by (induction xs arbitrary: n) (auto split: node.splits option.splits)

lemma walked_paths_Cons:
  "walked_paths ((r, ds, names) # ts) = map (path_join r) names @ walked_paths ts"
  by (simp add: walked_paths_def)

lemma walked_paths_append: "walked_paths (xs @ ys) = walked_paths xs @ walked_paths ys"
  by (simp add: walked_paths_def)

lemma walked_paths_Nil: "walked_paths [] = []"
  by (simp add: walked_paths_def)

lemma walk_file_comps:
  "walked_paths (walk t n) = map (foldl path_join t) (file_comps n)"
  "walked_paths (walk_entries t es) = map (foldl path_join t) (sub_comps es)"
proof (induction t n and t es rule: walk_walk_entries.induct)
  case (1 t b)
  show ?case by (simp add: walked_paths_Nil)
next
  case (2 t es)
  then show ?case by (simp add: walked_paths_Cons comp_def)
next
  case (3 t)
  show ?case by (simp add: walked_paths_Nil)
next
  case (4 t n sub es)
  show ?case
  proof (cases sub)
    case (RegFile b)
    with 4 show ?thesis by (simp add: walked_paths_Nil)
  next
    case (Dir ds)
    with 4(1) have a: "walked_paths (walk (path_join t n) sub)
        = map (foldl path_join (path_join t n)) (file_comps sub)"
      by blast
    from Dir have w: "walk_entries t ((n, sub) # es) = walk (path_join t n) sub @ walk_entries t es"
      by simp
    from Dir have c: "sub_comps ((n, sub) # es) = map ((#) n) (file_comps sub) @ sub_comps es"
      by simp
    show ?thesis
      unfolding w c walked_paths_append a 4(2) by (simp add: comp_def)
  qed
qed

lemma sub_comps_nonempty: "x \<in> set (sub_comps es) \<Longrightarrow> x \<noteq> []"
  by (induction es) (auto split: node.splits)

lemma file_comps_nonempty: "x \<in> set (file_comps n) \<Longrightarrow> x \<noteq> []"
  by (cases n) (auto dest: sub_comps_nonempty)

lemma file_comps_Dir_Cons:
  "set (file_comps (Dir ((n, sub) # es))) =
     (case sub of RegFile _ \<Rightarrow> {[n]} | Dir _ \<Rightarrow> (#) n ` set (file_comps sub))
     \<union> set (file_comps (Dir es))"
  by (cases sub) auto

lemma file_comps_Dir_Nil: "file_comps (Dir []) = []"
  by simp

lemma mem_file_comps_Dir:
  "m # cs \<in> set (file_comps (Dir es)) \<longleftrightarrow>
   (\<exists>sub. (m, sub) \<in> set es \<and>
      (case sub of RegFile _ \<Rightarrow> cs = [] | Dir _ \<Rightarrow> cs \<in> set (file_comps sub)))"
proof (induction es)
  case Nil
  show ?case by simp
next
  case (Cons e es)
  obtain n sub where e: "e = (n, sub)" by (cases e)
  show ?case
    unfolding e file_comps_Dir_Cons Un_iff Cons.IH
    by (cases sub) (auto simp del: file_comps.simps)
qed

lemma wf_entries_mem: "wf_entries es \<Longrightarrow> (c, sub) \<in> set es \<Longrightarrow> valid_name c \<and> wf_node sub"
  by (induction es) auto

lemma map_of_distinct: "distinct (map fst es) \<Longrightarrow> map_of es m = Some sub \<longleftrightarrow> (m, sub) \<in> set es"
  by (auto dest: map_of_SomeD)

lemma lookup_RegFile': "lookup (RegFile b) q = Some (RegFile c) \<longleftrightarrow> q = [] \<and> c = b"
  by (cases q) auto

lemma mem_file_comps:
  "wf_node n \<Longrightarrow> cs \<in> set (file_comps n) \<longleftrightarrow> cs \<noteq> [] \<and> (\<exists>b. lookup n cs = Some (RegFile b))"
proof (induction cs arbitrary: n)
  case Nil
  then show ?case using file_comps_nonempty by blast
next
  case (Cons m cs)
  show ?case
  proof (cases n)
    case (RegFile b)
    then show ?thesis by simp
  next
    case (Dir es)
    with Cons.prems have d: "distinct (map fst es)" and w: "wf_entries es" by simp_all
    have "(case sub of RegFile _ \<Rightarrow> cs = [] | Dir _ \<Rightarrow> cs \<in> set (file_comps sub))
        \<longleftrightarrow> (\<exists>b. lookup sub cs = Some (RegFile b))" if "(m, sub) \<in> set es" for sub
    proof (cases sub)
      case (RegFile b)
      then show ?thesis by (simp add: lookup_RegFile')
    next
      case (Dir ds)
      from w that have "wf_node sub" using wf_entries_mem by blast
      from Cons.IH [OF this] Dir show ?thesis
        by (cases cs) auto
    qed
    then have "m # cs \<in> set (file_comps (Dir es)) \<longleftrightarrow>
      (\<exists>sub. (m, sub) \<in> set es \<and> (\<exists>b. lookup sub cs = Some (RegFile b)))"
      unfolding mem_file_comps_Dir by blast
    also have "\<dots> \<longleftrightarrow> (\<exists>b. lookup (Dir es) (m # cs) = Some (RegFile b))"
    proof (cases "map_of es m")
      case None
      with map_of_distinct [OF d, of m] show ?thesis by simp
    next
      case (Some sub)
      with map_of_distinct [OF d, of m] have "(m, sub') \<in> set es \<longleftrightarrow> sub' = sub" for sub'
        by (metis option.inject)
      with Some show ?thesis by simp
    qed
    finally show ?thesis using Dir by simp
  qed
qed

lemma lookup_wf:
  "wf_node n \<Longrightarrow> lookup n cs = Some m \<Longrightarrow> list_all valid_name cs \<and> wf_node m"
proof (induction cs arbitrary: n)
  case Nil
  then show ?case by simp
next
  case (Cons c cs)
  then obtain es sub where n: "n = Dir es" and s: "map_of es c = Some sub" "lookup sub cs = Some m"
    by (cases n) (auto split: option.splits)
  from Cons.prems n have "wf_entries es" by simp
  with s(1) have v: "valid_name c" "wf_node sub"
    using wf_entries_mem map_of_SomeD by fast+
  from Cons.IH [OF v(2) s(2)] v(1) show ?case by simp
qed

lemma distinct_singletons: "distinct xs \<Longrightarrow> distinct (map (\<lambda>n. [n]) xs)"
  by (simp add: distinct_map inj_on_def)

lemma sub_comps_heads_Cons:
  assumes "\<forall>x\<in>set xs. \<exists>m cs. x = m # cs \<and> m \<in> fst ` set es \<and> cs \<noteq> ([]::string list)"
  shows "\<forall>x\<in>set xs. \<exists>m cs. x = m # cs \<and> m \<in> fst ` set (e # es) \<and> cs \<noteq> []"
proof
  fix x assume "x \<in> set xs"
  with assms obtain m cs where "x = m # cs" "m \<in> fst ` set es" "cs \<noteq> []" by blast
  then show "\<exists>m cs. x = m # cs \<and> m \<in> fst ` set (e # es) \<and> cs \<noteq> []" by simp
qed

lemma distinct_file_comps:
  "wf_node n \<Longrightarrow> distinct (file_comps n)"
  "wf_entries es \<Longrightarrow> distinct (map fst es) \<Longrightarrow>
     distinct (sub_comps es) \<and>
     (\<forall>x\<in>set (sub_comps es). \<exists>m cs. x = m # cs \<and> m \<in> fst ` set es \<and> cs \<noteq> [])"
proof (induction n and es rule: file_comps_sub_comps.induct)
  case (1 b)
  show ?case by simp
next
  case (2 es)
  then have d: "distinct (map fst es)" and w: "wf_entries es" by simp_all
  from 2(1) [OF w d] have s: "distinct (sub_comps es)"
    and h: "\<forall>x\<in>set (sub_comps es). \<exists>m cs. x = m # cs \<and> m \<in> fst ` set es \<and> cs \<noteq> []"
    by simp_all
  let ?names = "map fst (filter (\<lambda>(n, sub). case sub of Dir _ \<Rightarrow> False | RegFile _ \<Rightarrow> True) es)"
  from d have "distinct ?names" by (rule distinct_map_filter)
  then have dn: "distinct (map (\<lambda>n. [n]) ?names)"
    by (rule distinct_singletons)
  have dj: "set (map (\<lambda>n. [n]) ?names) \<inter> set (sub_comps es) = {}"
  proof (rule ccontr)
    assume "set (map (\<lambda>n. [n]) ?names) \<inter> set (sub_comps es) \<noteq> {}"
    then obtain x where x: "x \<in> set (map (\<lambda>n. [n]) ?names)" "x \<in> set (sub_comps es)" by blast
    from x(1) obtain n where "x = [n]" by (auto simp del: set_map simp: set_map)
    moreover from x(2) h obtain m cs where "x = m # cs" "cs \<noteq> []" by blast
    ultimately show False by simp
  qed
  have "file_comps (Dir es) = map (\<lambda>n. [n]) ?names @ sub_comps es" by simp
  with dn s dj show ?case by (simp only: distinct_append)
next
  case 3
  show ?case by simp
next
  case (4 n sub es)
  from 4(3,4) have w: "wf_entries es" "wf_node sub" and d: "distinct (map fst es)"
    and nn: "n \<notin> fst ` set es"
    by simp_all
  from 4(2) [OF w(1) d] have s: "distinct (sub_comps es)"
    and h: "\<forall>x\<in>set (sub_comps es). \<exists>m cs. x = m # cs \<and> m \<in> fst ` set es \<and> cs \<noteq> []"
    by simp_all
  note h' = sub_comps_heads_Cons [OF h, of "(n, sub)"]
  show ?case
  proof (cases sub)
    case (RegFile b)
    then have c: "sub_comps ((n, sub) # es) = sub_comps es" by simp
    from s h' show ?thesis unfolding c by blast
  next
    case (Dir ds)
    from 4(1) [OF Dir w(2)] have "distinct (file_comps sub)" .
    then have dl: "distinct (map ((#) n) (file_comps sub))"
      by (simp add: distinct_map)
    have dj: "set (map ((#) n) (file_comps sub)) \<inter> set (sub_comps es) = {}"
    proof (rule ccontr)
      assume "set (map ((#) n) (file_comps sub)) \<inter> set (sub_comps es) \<noteq> {}"
      then obtain x where x: "x \<in> set (map ((#) n) (file_comps sub))" "x \<in> set (sub_comps es)"
        by blast
      from x(1) obtain cs' where "x = n # cs'" by (auto simp del: file_comps.simps)
      moreover from x(2) h obtain m cs where "x = m # cs" "m \<in> fst ` set es" by blast
      ultimately show False using nn by simp
    qed
    have c: "sub_comps ((n, sub) # es) = map ((#) n) (file_comps sub) @ sub_comps es"
      using Dir by simp
    have hd: "\<forall>x\<in>set (map ((#) n) (file_comps sub)).
        \<exists>m cs. x = m # cs \<and> m \<in> fst ` set ((n, sub) # es) \<and> cs \<noteq> []"
    proof
      fix x assume "x \<in> set (map ((#) n) (file_comps sub))"
      then obtain cs' where "x = n # cs'" "cs' \<in> set (file_comps sub)"
        by (auto simp del: file_comps.simps)
      then show "\<exists>m cs. x = m # cs \<and> m \<in> fst ` set ((n, sub) # es) \<and> cs \<noteq> []"
        using file_comps_nonempty [of cs' sub] by simp
    qed
    have "\<forall>x\<in>set (sub_comps ((n, sub) # es)).
        \<exists>m cs. x = m # cs \<and> m \<in> fst ` set ((n, sub) # es) \<and> cs \<noteq> []"
      unfolding c set_append using hd h' by blast
    moreover have "distinct (sub_comps ((n, sub) # es))"
      unfolding c distinct_append using dl s dj by blast
    ultimately show ?thesis by blast
  qed
qed

lemma str_split_no_sep_in: "x \<in> set (str_split c s) \<Longrightarrow> c \<notin> set x"
proof (induction s arbitrary: x)
  case Nil
  then show ?case by simp
next
  case (Cons a s)
  obtain y ys where y: "str_split c s = y # ys"
    using str_split_not_Nil [of c s] by (cases "str_split c s") auto
  with Cons.IH have "c \<notin> set y" "\<forall>z\<in>set ys. c \<notin> set z" by auto
  with Cons.prems y show ?case by (auto split: if_splits)
qed

lemma components_valid_names: "list_all valid_name (components p)"
  unfolding components_def list_all_iff valid_name_def
  using str_split_no_sep_in by auto

lemma wf_entries_update:
  "wf_entries es \<Longrightarrow> valid_name c \<Longrightarrow> wf_node v \<Longrightarrow> wf_entries (AList.update c v es)"
  by (induction es) auto

lemma wf_put:
  "wf_node n \<Longrightarrow> list_all valid_name cs \<Longrightarrow> wf_node v \<Longrightarrow> put n cs v = Some n' \<Longrightarrow> wf_node n'"
proof (induction cs arbitrary: n n')
  case Nil
  then show ?case by simp
next
  case (Cons c cs)
  then obtain es where n: "n = Dir es" by (cases n) auto
  with Cons.prems have w: "wf_entries es" "distinct (map fst es)" "valid_name c" by simp_all
  show ?case
  proof (cases "cs = []")
    case True
    with Cons.prems n have "n' = Dir (AList.update c v es)" by simp
    with w Cons.prems(3) show ?thesis
      by (simp add: wf_entries_update distinct_update)
  next
    case False
    with Cons.prems n obtain sub sub' where s: "map_of es c = Some sub" "put sub cs v = Some sub'"
      "n' = Dir (AList.update c sub' es)"
      by (auto split: option.splits)
    from s(1) w(1) have "wf_node sub" using wf_entries_mem map_of_SomeD by fast
    with Cons.IH [of sub sub'] Cons.prems s(2) have "wf_node sub'" by simp
    with s(3) w show ?thesis
      by (simp add: wf_entries_update distinct_update)
  qed
qed

lemma wf_open_w: "wf_node root \<Longrightarrow> open_w root path = Inr root1 \<Longrightarrow> wf_node root1"
  using open_w_put [of root path root1] wf_put [of root "components path" "RegFile []" root1]
    components_valid_names [of path]
  by simp

lemma put_parent_dir:
  "put n cs v = Some n' \<Longrightarrow> cs \<noteq> [] \<Longrightarrow> \<exists>es. lookup n' (butlast cs) = Some (Dir es)"
proof (induction cs arbitrary: n n')
  case Nil
  then show ?case by simp
next
  case (Cons c cs)
  then obtain es where n: "n = Dir es" by (cases n) auto
  show ?case
  proof (cases "cs = []")
    case True
    with Cons.prems n show ?thesis by auto
  next
    case False
    with Cons.prems n obtain sub sub' where s: "map_of es c = Some sub" "put sub cs v = Some sub'"
      "n' = Dir (AList.update c sub' es)"
      by (auto split: option.splits)
    from Cons.IH [OF s(2) False] obtain ds where "lookup sub' (butlast cs) = Some (Dir ds)" ..
    with s(3) False show ?thesis by (simp add: update_conv')
  qed
qed

lemma open_w_after_put:
  assumes "open_w root path = Inr root1"
    and "put root (components path) (RegFile junk) = Some rootj"
  shows "open_w rootj path = Inr root1"
proof -
  let ?cs = "components path"
  from assms(1) have p: "path \<noteq> []" "?cs \<noteq> []" "last path \<noteq> CHR ''/''"
    by (auto simp: open_w_def Let_def split: if_splits)
  from assms(1) have r1: "put root ?cs (RegFile []) = Some root1"
    using open_w_put by blast
  from put_parent_dir [OF assms(2) p(2)] obtain es where
    d: "lookup rootj (butlast ?cs) = Some (Dir es)" ..
  from assms(2) have l: "lookup rootj ?cs = Some (RegFile junk)" by (rule lookup_put_same)
  from assms(2) have "put rootj ?cs (RegFile []) = put root ?cs (RegFile [])" by (rule put_put)
  with r1 have "put rootj ?cs (RegFile []) = Some root1" by simp
  with p d l show ?thesis by (simp add: open_w_def Let_def)
qed

lemma calculate_sha256_walked:
  assumes "wf_node root" and "lookup root (components directory) = Some sub"
    and "cs \<in> set (file_comps sub)"
  shows "\<exists>b. file_at root (components directory @ cs) = Some b \<and>
    calculate_sha256 root (foldl path_join directory cs) = Inr (hexdigest (sha256 b))"
proof -
  from lookup_wf [OF assms(1,2)] have ws: "wf_node sub" by simp
  from mem_file_comps [OF ws, of cs] assms(3) obtain b where
    b: "cs \<noteq> []" "lookup sub cs = Some (RegFile b)"
    by blast
  from lookup_wf [OF ws b(2)] have v: "list_all valid_name cs" by simp
  let ?p = "foldl path_join directory cs"
  from v have c: "components ?p = components directory @ cs"
    by (rule components_foldl_path_join)
  from foldl_path_join_last [OF v b(1)] have l: "?p \<noteq> []" "last ?p \<noteq> CHR ''/''"
    by simp_all
  from assms(2) b(2) have lk: "lookup root (components directory @ cs) = Some (RegFile b)"
    by (simp add: lookup_append)
  with c l have "read_file root ?p = Inr b"
    by (simp add: read_file_def)
  then have "calculate_sha256 root ?p = Inr (hexdigest (sha256 b))"
    by (simp add: calculate_sha256_def)
  with lk show ?thesis by (simp add: file_at_def)
qed

lemma hash_rows_map:
  "\<forall>cs\<in>set css. calculate_sha256 root (f cs) = Inr (g cs) \<Longrightarrow>
   hash_rows root (map f css) = Inr (map (\<lambda>cs. (f cs, g cs)) css)"
  by (induction css) simp_all

lemma os_walk_comps:
  "walked_paths (os_walk root directory) = map (foldl path_join directory) (walked_comps root directory)"
  by (simp add: os_walk_def walked_comps_def walked_paths_Nil walk_file_comps(1)
      split: option.splits)

lemma walked_comps_set:
  assumes "wf_node root"
  shows "set (walked_comps root directory) =
    {cs. directory \<noteq> [] \<and> cs \<noteq> [] \<and> (\<exists>b. file_at root (components directory @ cs) = Some b)}"
proof (cases "directory = []")
  case True
  then show ?thesis by (simp add: walked_comps_def)
next
  case False
  show ?thesis
  proof (cases "lookup root (components directory)")
    case None
    with False show ?thesis
      by (simp add: walked_comps_def file_at_def lookup_append)
  next
    case (Some sub)
    from lookup_wf [OF assms Some] have ws: "wf_node sub" by simp
    have "file_at root (components directory @ cs) = Some b \<longleftrightarrow> lookup sub cs = Some (RegFile b)"
      for cs b
      using Some by (auto simp: file_at_def lookup_append split: option.splits node.splits)
    with False Some mem_file_comps [OF ws] show ?thesis
      by (auto simp: walked_comps_def)
  qed
qed

lemma walked_comps_distinct: "wf_node root \<Longrightarrow> distinct (walked_comps root directory)"
  using distinct_file_comps(1) lookup_wf
  by (auto simp: walked_comps_def split: option.splits)

lemma hash_rows_walked:
  assumes "wf_node root"
  shows "hash_rows root (walked_paths (os_walk root directory)) =
    Inr (map (\<lambda>cs. (foldl path_join directory cs,
                     hexdigest (sha256 (the (file_at root (components directory @ cs))))))
          (walked_comps root directory))"
  unfolding os_walk_comps
proof (rule hash_rows_map, rule ballI)
  fix cs assume cs: "cs \<in> set (walked_comps root directory)"
  then obtain sub where "lookup root (components directory) = Some sub" "cs \<in> set (file_comps sub)"
    by (cases "lookup root (components directory)")
       (auto simp: walked_comps_def split: if_splits)
  from calculate_sha256_walked [OF assms this]
  show "calculate_sha256 root (foldl path_join directory cs) =
    Inr (hexdigest (sha256 (the (file_at root (components directory @ cs)))))"
    by auto
qed

lemma append_file_opened:
  assumes "open_w root path = Inr root1"
  shows "put root (components path) (RegFile text) = Some (append_file root1 path text)"
proof -
  from assms have p: "put root (components path) (RegFile []) = Some root1"
    using open_w_put by blast
  then have l: "lookup root1 (components path) = Some (RegFile [])" by (rule lookup_put_same)
  from p have "put root1 (components path) (RegFile text) = put root (components path) (RegFile text)"
    by (rule put_put)
  moreover from p obtain r where "put root (components path) (RegFile text) = Some r"
    using put_defined by blast
  ultimately show ?thesis using l by (simp add: append_file_def)
qed

lemma csv_header: "csv_row [''file_path'', ''sha256_hash''] = ''file_path,sha256_hash'' @ [CHR 0x0D, CHR 0x0A]"
  by (simp add: csv_row_def csv_field_def)

text \<open>
  C5. On a well-formed tree on which the result file can be opened,
  \<open>calculate_sha256_for_directory\<close> returns, and the result file then holds the header line
  \<open>file_path,sha256_hash\<close> followed by one row per regular file below the directory: the
  rows are the paths and hashes of a duplicate-free list of component paths whose set is
  exactly the set of regular files below the directory in the tree as it is once the result
  file has been opened.
\<close>

theorem manifest_complete:
  "wf_node root \<Longrightarrow> open_w root path_to_result = Inr root1 \<Longrightarrow>
   \<exists>root' css rows.
     calculate_sha256_for_directory directory path_to_result root = Inr root' \<and>
     file_at root' (components path_to_result) =
       Some (''file_path,sha256_hash'' @ [CHR 0x0D, CHR 0x0A] @
             concat (map (\<lambda>(p, h). csv_row [p, h]) rows)) \<and>
     rows = map (\<lambda>cs. (foldl path_join directory cs,
                      hexdigest (sha256 (the (file_at root1 (components directory @ cs)))))) css \<and>
     distinct css \<and>
     set css = {cs. directory \<noteq> [] \<and> cs \<noteq> [] \<and>
                   (\<exists>b. file_at root1 (components directory @ cs) = Some b)}"
proof -
  assume w: "wf_node root" and o: "open_w root path_to_result = Inr root1"
  from w o have w1: "wf_node root1" by (rule wf_open_w)
  let ?css = "walked_comps root1 directory"
  let ?rows = "map (\<lambda>cs. (foldl path_join directory cs,
      hexdigest (sha256 (the (file_at root1 (components directory @ cs)))))) ?css"
  let ?root' = "append_file root1 path_to_result (manifest_text ?rows)"
  from o hash_rows_walked [OF w1, of directory]
  have c: "calculate_sha256_for_directory directory path_to_result root = Inr ?root'"
    by (simp add: calculate_sha256_for_directory_def)
  from append_file_opened [OF o] have "lookup ?root' (components path_to_result)
      = Some (RegFile (manifest_text ?rows))"
    by (rule lookup_put_same)
  then have f: "file_at ?root' (components path_to_result) =
       Some (''file_path,sha256_hash'' @ [CHR 0x0D, CHR 0x0A] @
             concat (map (\<lambda>(p, h). csv_row [p, h]) ?rows))"
    by (simp add: file_at_def manifest_text_def csv_header)
  from c f walked_comps_distinct [OF w1] walked_comps_set [OF w1] show ?thesis
    by blast
qed

theorem manifest_complete_witness:
  "\<exists>root' css rows.
     calculate_sha256_for_directory ''d'' ''out.csv'' sample_tree = Inr root' \<and>
     file_at root' [''out.csv''] =
       Some (''file_path,sha256_hash'' @ [CHR 0x0D, CHR 0x0A] @
             concat (map (\<lambda>(p, h). csv_row [p, h]) rows)) \<and>
     map fst rows = map (foldl path_join ''d'') css \<and>
     distinct css \<and> set css = {[''a.txt''], [''sub'', ''b.txt'']}"
proof -
  let ?root1 = "Dir [(''d'', Dir [(''a.txt'', RegFile ''abc''), (''sub'', Dir [(''b.txt'', RegFile ''abc'')])]),
                     (''out.csv'', RegFile [])]"
  have w: "wf_node sample_tree"
    by (simp add: sample_tree_def valid_name_def)
  have o: "open_w sample_tree ''out.csv'' = Inr ?root1"
    by (simp add: sample_tree_def open_w_def components_def)
  have c: "components ''out.csv'' = [''out.csv'']" "components ''d'' = [''d'']"
    by (simp_all add: components_def)
  have s: "{cs. ''d'' \<noteq> [] \<and> cs \<noteq> [] \<and> (\<exists>b. file_at ?root1 (components ''d'' @ cs) = Some b)}
      = {[''a.txt''], [''sub'', ''b.txt'']}"
  proof (rule set_eqI)
    fix cs :: "string list"
    have "(\<exists>b. file_at ?root1 (''d'' # cs) = Some b) \<longleftrightarrow> cs = [''a.txt''] \<or> cs = [''sub'', ''b.txt'']"
    proof (cases cs)
      case Nil
      then show ?thesis by (simp add: file_at_def)
    next
      case (Cons x xs)
      show ?thesis
      proof (cases xs)
        case Nil
        with Cons show ?thesis by (auto simp: file_at_def)
      next
        case (Cons y ys)
        with \<open>cs = x # xs\<close> show ?thesis
          by (cases ys) (auto simp: file_at_def split: option.splits)
      qed
    qed
    then show "cs \<in> {cs. ''d'' \<noteq> [] \<and> cs \<noteq> [] \<and> (\<exists>b. file_at ?root1 (components ''d'' @ cs) = Some b)}
        \<longleftrightarrow> cs \<in> {[''a.txt''], [''sub'', ''b.txt'']}"
      unfolding c by auto
  qed
  from manifest_complete [OF w o, of "''d''"] obtain root' css rows where
    r: "calculate_sha256_for_directory ''d'' ''out.csv'' sample_tree = Inr root'"
      "file_at root' (components ''out.csv'') =
       Some (''file_path,sha256_hash'' @ [CHR 0x0D, CHR 0x0A] @
             concat (map (\<lambda>(p, h). csv_row [p, h]) rows))"
      "rows = map (\<lambda>cs. (foldl path_join ''d'' cs,
                      hexdigest (sha256 (the (file_at ?root1 (components ''d'' @ cs)))))) css"
      "distinct css"
      "set css = {cs. ''d'' \<noteq> [] \<and> cs \<noteq> [] \<and> (\<exists>b. file_at ?root1 (components ''d'' @ cs) = Some b)}"
    by blast
  from r(3) have "map fst rows = map (foldl path_join ''d'') css" by (simp add: comp_def)
  with r(1,2,4,5) show ?thesis unfolding s c(1) by blast
qed

text \<open>
  C8. When a run of \<open>calculate_sha256_for_directory\<close> has returned, a second run on the tree
  it left returns the very same tree, so the same manifest bytes; and whatever the result
  file held before the first run, the result is the same: the file is rebuilt from nothing.
\<close>

theorem manifest_rebuild:
  "calculate_sha256_for_directory directory path_to_result root = Inr root' \<Longrightarrow>
   calculate_sha256_for_directory directory path_to_result root' = Inr root' \<and>
   (\<forall>junk rootj. put root (components path_to_result) (RegFile junk) = Some rootj \<longrightarrow>
      calculate_sha256_for_directory directory path_to_result rootj = Inr root')"
proof -
  assume a: "calculate_sha256_for_directory directory path_to_result root = Inr root'"
  then obtain root1 rows where o: "open_w root path_to_result = Inr root1"
    and h: "hash_rows root1 (walked_paths (os_walk root1 directory)) = Inr rows"
    and r: "root' = append_file root1 path_to_result (manifest_text rows)"
    by (auto simp: calculate_sha256_for_directory_def split: sum.splits)
  have j: "calculate_sha256_for_directory directory path_to_result rootj = Inr root'"
    if "put root (components path_to_result) (RegFile junk) = Some rootj" for junk rootj
  proof -
    from o that have "open_w rootj path_to_result = Inr root1" by (rule open_w_after_put)
    with h r show ?thesis by (simp add: calculate_sha256_for_directory_def)
  qed
  from append_file_opened [OF o, of "manifest_text rows"] r
  have "put root (components path_to_result) (RegFile (manifest_text rows)) = Some root'" by simp
  then have "calculate_sha256_for_directory directory path_to_result root' = Inr root'" by (rule j)
  with j show ?thesis by blast
qed

theorem manifest_rebuild_witness:
  "calculate_sha256_for_directory ''d'' ''out.csv''
     (Dir [(''d'', Dir [(''a.txt'', RegFile ''abc'')]),
           (''out.csv'', RegFile (''file_path,sha256_hash'' @ [CHR 0x0D, CHR 0x0A] @
              ''d/a.txt,ba7816bf8f01cfea414140de5dae2223b00361a396177a9cb410ff61f20015ad''
              @ [CHR 0x0D, CHR 0x0A]))])
   = Inr (Dir [(''d'', Dir [(''a.txt'', RegFile ''abc'')]),
           (''out.csv'', RegFile (''file_path,sha256_hash'' @ [CHR 0x0D, CHR 0x0A] @
              ''d/a.txt,ba7816bf8f01cfea414140de5dae2223b00361a396177a9cb410ff61f20015ad''
              @ [CHR 0x0D, CHR 0x0A]))])
   \<and>
   calculate_sha256_for_directory ''d'' ''out.csv''
     (Dir [(''d'', Dir [(''a.txt'', RegFile ''abc'')]), (''out.csv'', RegFile ''stale'')])
   = Inr (Dir [(''d'', Dir [(''a.txt'', RegFile ''abc'')]),
           (''out.csv'', RegFile (''file_path,sha256_hash'' @ [CHR 0x0D, CHR 0x0A] @
              ''d/a.txt,ba7816bf8f01cfea414140de5dae2223b00361a396177a9cb410ff61f20015ad''
              @ [CHR 0x0D, CHR 0x0A]))])"
proof -
  let ?root = "Dir [(''d'', Dir [(''a.txt'', RegFile ''abc'')])]"
  let ?root' = "Dir [(''d'', Dir [(''a.txt'', RegFile ''abc'')]),
           (''out.csv'', RegFile (''file_path,sha256_hash'' @ [CHR 0x0D, CHR 0x0A] @
              ''d/a.txt,ba7816bf8f01cfea414140de5dae2223b00361a396177a9cb410ff61f20015ad''
              @ [CHR 0x0D, CHR 0x0A]))]"
  have c: "components ''out.csv'' = [''out.csv'']"
    by (simp add: components_def)
  have "calculate_sha256_for_directory ''d'' ''out.csv'' ?root = Inr ?root'"
    by (simp add: calculate_sha256_for_directory_def open_w_def components_def os_walk_def
        walked_paths_def path_join_def calculate_sha256_def read_file_def sha256_abc
        append_file_def manifest_text_def csv_row_def csv_field_def)
  from manifest_rebuild [OF this]
  have 1: "calculate_sha256_for_directory ''d'' ''out.csv'' ?root' = Inr ?root'"
    and 2: "\<And>junk rootj. put ?root (components ''out.csv'') (RegFile junk) = Some rootj \<Longrightarrow>
      calculate_sha256_for_directory ''d'' ''out.csv'' rootj = Inr ?root'"
    by blast+
  have "put ?root (components ''out.csv'') (RegFile ''stale'')
      = Some (Dir [(''d'', Dir [(''a.txt'', RegFile ''abc'')]), (''out.csv'', RegFile ''stale'')])"
    unfolding c by simp
  from 2 [OF this] 1 show ?thesis by simp
qed

end
